theory Spec2Isabelle
  imports Main "HOL-Library.Sublist"
begin

section \<open>Argparser: the command-line parser of Bud (src/Argparser.h)\<close>

text \<open>
  A C string is modelled by the \<^typ>\<open>string\<close> of its bytes before the terminating NUL;
  reading the byte at the position of the terminator gives NUL, and a read behind it is
  outside the object. A pointer into the argument vector is an index into one explicit
  array of possibly-null strings, because \<open>Argparser_parse\<close> reads and writes that
  array through two aliases (\<open>self->argv\<close> and \<open>self->out\<close>).
\<close>

subsection \<open>Data structures\<close>

datatype ArgparserOptionType =
    ARGPARSER_TYPE_END
  | ARGPARSER_TYPE_GROUP
  | ARGPARSER_TYPE_BOOLEAN
  | ARGPARSER_TYPE_INTEGER
  | ARGPARSER_TYPE_FLOAT
  | ARGPARSER_TYPE_STRING

text \<open>
  The cells that the \<open>value\<close> pointers of the options point to. The type \<open>'f\<close> stands
  for the platform's \<open>float\<close>. The memory is a map from addresses to cells.
\<close>

datatype 'f cell = BoolV bool | IntV int | FloatV 'f | StrV string

type_synonym 'f memory = "nat \<Rightarrow> 'f cell option"

text \<open>
  The ways in which the process ends instead of returning: \<open>exit(0)\<close> after the usage
  text, \<open>exit(1)\<close> after one of the two diagnostics (with the texts that are printed),
  a failed \<open>assert\<close> (with the asserted expression), and a read or write outside an
  object or through a null pointer, which C leaves undefined.
\<close>

datatype exit =
    HelpRequested
  | UnknownOption string
  | InvalidValue char "string option" string
  | AssertionFailed string
  | Fault

text \<open>
  A computation either ends the process, in which case the memory at that moment is
  kept, or returns a result.
\<close>

type_synonym ('f, 'a) result = "(exit \<times> 'f memory) + 'a"

text \<open>
  A callback runs on the memory and either ends the process or returns. The fields
  \<open>value\<close> and \<open>help\<close> of the C struct are \<open>valuePtr\<close> and \<open>helpText\<close> here.
\<close>

type_synonym 'f Argparser_callback = "'f memory \<Rightarrow> ('f, 'f memory) result"

record 'f ArgparserOption =
  type :: ArgparserOptionType
  shortName :: char
  longName :: "string option"
  valuePtr :: "nat option"
  helpText :: "string option"
  callback :: "'f Argparser_callback option"

record 'f Argparser =
  valid :: bool
  options :: "'f ArgparserOption list"
  usage :: "string option"
  description :: "string option"
  epilog :: "string option"
  stopAtNonOption :: bool
  argc :: int
  argv :: nat
  out :: nat
  cpidx :: int

subsection \<open>Strings and the C library\<close>

definition NUL :: char where
  "NUL = CHR 0x00"

definition char_at :: "string \<Rightarrow> nat \<Rightarrow> char" where
  "char_at s i = (if i < length s then s ! i else NUL)"

definition strncmp_equal :: "string \<Rightarrow> string \<Rightarrow> nat \<Rightarrow> bool" where
  "strncmp_equal a b n = (take n a = take n b)"

definition isspace :: "char \<Rightarrow> bool" where
  "isspace c = (c \<in> {CHR '' '', CHR 0x09, CHR 0x0A, CHR 0x0B, CHR 0x0C, CHR 0x0D})"

definition digit_value :: "char \<Rightarrow> nat" where
  "digit_value c =
     (let n = of_char c :: nat in
      if 48 \<le> n \<and> n \<le> 57 then n - 48
      else if 97 \<le> n \<and> n \<le> 122 then n - 87
      else if 65 \<le> n \<and> n \<le> 90 then n - 55
      else 36)"

definition LONG_MAX :: int where
  "LONG_MAX = 2 ^ 63 - 1"

definition LONG_MIN :: int where
  "LONG_MIN = - (2 ^ 63)"

text \<open>
  \<open>strtol(s, &end, 0)\<close> on a platform with a 64-bit \<open>long\<close>: the value, the text at
  \<open>end\<close>, and whether \<open>errno\<close> was set (to \<open>ERANGE\<close>).
\<close>

definition strtol_digits :: "nat \<Rightarrow> bool \<Rightarrow> string \<Rightarrow> string \<Rightarrow> int \<times> string \<times> bool" where
  "strtol_digits base neg s orig =
     (let ds = takeWhile (\<lambda>c. digit_value c < base) s;
          rest = dropWhile (\<lambda>c. digit_value c < base) s;
          m = foldl (\<lambda>a c. a * int base + int (digit_value c)) 0 ds;
          v = (if neg then - m else m)
      in if ds = [] then (0, orig, False)
         else if v > LONG_MAX then (LONG_MAX, rest, True)
         else if v < LONG_MIN then (LONG_MIN, rest, True)
         else (v, rest, False))"

definition strtol :: "string \<Rightarrow> int \<times> string \<times> bool" where
  "strtol s =
     (let s1 = dropWhile isspace s;
          neg = (char_at s1 0 = CHR ''-'');
          s2 = (if char_at s1 0 = CHR ''-'' \<or> char_at s1 0 = CHR ''+'' then tl s1 else s1)
      in if char_at s2 0 = CHR ''0'' \<and> (char_at s2 1 = CHR ''x'' \<or> char_at s2 1 = CHR ''X'')
            \<and> digit_value (char_at s2 2) < 16
         then strtol_digits 16 neg (drop 2 s2) s
         else if char_at s2 0 = CHR ''0'' then strtol_digits 8 neg s2 s
         else strtol_digits 10 neg s2 s)"

text \<open>The conversion of a \<open>long\<close> to a 32-bit \<open>int\<close> keeps the low 32 bits.\<close>

definition long_to_int :: "int \<Rightarrow> int" where
  "long_to_int v = (v + 2 ^ 31) mod 2 ^ 32 - 2 ^ 31"

definition strerror_ERANGE :: string where
  "strerror_ERANGE = ''Numerical result out of range''"

subsection \<open>Lifecycle and configuration\<close>


definition Argparser_init :: "'f ArgparserOption list \<Rightarrow> 'f Argparser" where
  "Argparser_init opts =
     \<lparr>valid = True, options = opts, usage = None, description = None, epilog = None,
      stopAtNonOption = False, argc = 0, argv = 0, out = 0, cpidx = 0\<rparr>"






subsection \<open>Exits\<close>

definition Argparser_exitForHelp :: "'f Argparser_callback" where
  "Argparser_exitForHelp m = Inl (HelpRequested, m)"

definition arg_at :: "string option list \<Rightarrow> nat \<Rightarrow> string option" where
  "arg_at vec i = (if i < length vec then vec ! i else None)"

definition Argparser_exitDueToUnknownOption ::
  "'f Argparser \<Rightarrow> string option list \<Rightarrow> 'f memory \<Rightarrow> ('f, 'a) result" where
  "Argparser_exitDueToUnknownOption self vec m =
     (case arg_at vec (argv self) of
        None \<Rightarrow> Inl (Fault, m)
      | Some a \<Rightarrow> Inl (UnknownOption a, m))"

definition Argparser_exitDueToError ::
  "'f ArgparserOption \<Rightarrow> string \<Rightarrow> 'f memory \<Rightarrow> ('f, 'a) result" where
  "Argparser_exitDueToError option reason m =
     Inl (InvalidValue (shortName option) (longName option) reason, m)"

subsection \<open>The value converter\<close>

definition run_callback :: "'f ArgparserOption \<Rightarrow> 'f memory \<Rightarrow> ('f, 'f memory) result" where
  "run_callback option m = (case callback option of None \<Rightarrow> Inr m | Some f \<Rightarrow> f m)"

definition Argparser_parseValue ::
  "(string \<Rightarrow> 'f \<times> string \<times> bool) \<Rightarrow> 'f ArgparserOption \<Rightarrow> string option \<Rightarrow> 'f memory
     \<Rightarrow> ('f, 'f memory) result" where
  "Argparser_parseValue strtof option optvalue m =
     (case valuePtr option of
        None \<Rightarrow> run_callback option m
      | Some p \<Rightarrow>
         (case type option of
            ARGPARSER_TYPE_BOOLEAN \<Rightarrow>
              (case optvalue of
                 Some v \<Rightarrow>
                   if length v = 1 \<and> char_at v 0 = CHR ''1''
                   then run_callback option (m(p \<mapsto> BoolV True))
                   else if length v = 1 \<and> char_at v 0 = CHR ''0''
                   then run_callback option (m(p \<mapsto> BoolV False))
                   else Argparser_exitDueToError option ''expects no value, 0, or 1'' m
               | None \<Rightarrow> run_callback option (m(p \<mapsto> BoolV True)))
          | ARGPARSER_TYPE_STRING \<Rightarrow>
              (case optvalue of
                 Some v \<Rightarrow> run_callback option (m(p \<mapsto> StrV v))
               | None \<Rightarrow> Argparser_exitDueToError option ''requires a value'' m)
          | ARGPARSER_TYPE_INTEGER \<Rightarrow>
              (case optvalue of
                 None \<Rightarrow> Argparser_exitDueToError option ''requires a value'' m
               | Some v \<Rightarrow>
                   if length v > 0 then
                     (case strtol v of
                        (n, s, err) \<Rightarrow>
                          if err
                          then Argparser_exitDueToError option strerror_ERANGE
                                 (m(p \<mapsto> IntV (long_to_int n)))
                          else if char_at s 0 \<noteq> NUL
                          then Argparser_exitDueToError option ''expects an integer value''
                                 (m(p \<mapsto> IntV (long_to_int n)))
                          else run_callback option (m(p \<mapsto> IntV (long_to_int n))))
                   else Argparser_exitDueToError option ''requires a value'' m)
          | ARGPARSER_TYPE_FLOAT \<Rightarrow>
              (case optvalue of
                 None \<Rightarrow> Argparser_exitDueToError option ''requires a value'' m
               | Some v \<Rightarrow>
                   if length v > 0 then
                     (case strtof v of
                        (x, s, err) \<Rightarrow>
                          if err
                          then Argparser_exitDueToError option strerror_ERANGE
                                 (m(p \<mapsto> FloatV x))
                          else if char_at s 0 \<noteq> NUL
                          then Argparser_exitDueToError option ''expects a numerical value''
                                 (m(p \<mapsto> FloatV x))
                          else run_callback option (m(p \<mapsto> FloatV x)))
                   else Argparser_exitDueToError option ''requires a value'' m)
          | _ \<Rightarrow> Inl (AssertionFailed ''0'', m)))"

subsection \<open>The short-option matcher\<close>

text \<open>
  The test \<open>self->argc > 1 && self->argv[1] && self->argv[1][0] != '-'\<close>: the following
  token when it is taken as the value, nothing when it is not.
\<close>

definition following_value :: "'f Argparser \<Rightarrow> string option list \<Rightarrow> exit + string option" where
  "following_value self vec =
     (if argc self > 1 then
        (if argv self + 1 < length vec then
           (case vec ! (argv self + 1) of
              None \<Rightarrow> Inr None
            | Some v \<Rightarrow> if char_at v 0 \<noteq> CHR ''-'' then Inr (Some v) else Inr None)
         else Inl Fault)
      else Inr None)"

text \<open>
  The table scan of the two-character form. Each iteration reads \<open>self->argv[0]\<close>
  again, after \<open>self->argv++\<close> of an earlier iteration too.
\<close>

fun short_single ::
  "(string \<Rightarrow> 'f \<times> string \<times> bool) \<Rightarrow> 'f ArgparserOption list \<Rightarrow> string option list
     \<Rightarrow> 'f Argparser \<Rightarrow> 'f memory \<Rightarrow> bool
     \<Rightarrow> ('f, 'f Argparser \<times> 'f memory \<times> bool) result" where
  "short_single strtof [] vec self m foundOption = Inl (Fault, m)"
| "short_single strtof (opt # opts) vec self m foundOption =
     (if type opt = ARGPARSER_TYPE_END then Inr (self, m, foundOption)
      else if shortName opt = NUL then short_single strtof opts vec self m foundOption
      else
        (case arg_at vec (argv self) of
           None \<Rightarrow> Inl (Fault, m)
         | Some a \<Rightarrow>
             if length a < 1 then Inl (Fault, m)
             else if shortName opt \<noteq> char_at a 1
             then short_single strtof opts vec self m foundOption
             else
               (case following_value self vec of
                  Inl e \<Rightarrow> Inl (e, m)
                | Inr (Some v) \<Rightarrow>
                    (case Argparser_parseValue strtof opt (Some v) m of
                       Inl e \<Rightarrow> Inl e
                     | Inr m' \<Rightarrow>
                         short_single strtof opts vec
                           (self\<lparr>argv := argv self + 1, argc := argc self - 1\<rparr>) m' True)
                | Inr None \<Rightarrow>
                    (case Argparser_parseValue strtof opt None m of
                       Inl e \<Rightarrow> Inl e
                     | Inr m' \<Rightarrow> short_single strtof opts vec self m' True))))"

text \<open>The table scan for one character of a compound token.\<close>

fun compound_scan ::
  "(string \<Rightarrow> 'f \<times> string \<times> bool) \<Rightarrow> 'f ArgparserOption list \<Rightarrow> char \<Rightarrow> 'f memory \<Rightarrow> bool
     \<Rightarrow> ('f, 'f memory \<times> bool) result" where
  "compound_scan strtof [] c m foundOption = Inl (Fault, m)"
| "compound_scan strtof (opt # opts) c m foundOption =
     (if type opt = ARGPARSER_TYPE_END then Inr (m, foundOption)
      else if shortName opt = c then
        (case Argparser_parseValue strtof opt None m of
           Inl e \<Rightarrow> Inl e
         | Inr m' \<Rightarrow> compound_scan strtof opts c m' True)
      else compound_scan strtof opts c m foundOption)"

text \<open>The loop over the characters after the leading \<open>-\<close> of a compound token.\<close>

fun short_compound ::
  "(string \<Rightarrow> 'f \<times> string \<times> bool) \<Rightarrow> 'f ArgparserOption list \<Rightarrow> 'f Argparser
     \<Rightarrow> string option list \<Rightarrow> string \<Rightarrow> 'f memory \<Rightarrow> bool \<Rightarrow> ('f, 'f memory \<times> bool) result" where
  "short_compound strtof opts self vec [] m foundOption = Inr (m, foundOption)"
| "short_compound strtof opts self vec (c # cs) m foundOption =
     (case compound_scan strtof opts c m False of
        Inl e \<Rightarrow> Inl e
      | Inr (m', found) \<Rightarrow>
          if \<not> found then Argparser_exitDueToUnknownOption self vec m'
          else short_compound strtof opts self vec cs m' found)"

definition Argparser_parseShortOption ::
  "(string \<Rightarrow> 'f \<times> string \<times> bool) \<Rightarrow> 'f Argparser \<Rightarrow> 'f ArgparserOption list
     \<Rightarrow> string option list \<Rightarrow> 'f memory \<Rightarrow> ('f, 'f Argparser \<times> 'f memory) result" where
  "Argparser_parseShortOption strtof self opts vec m =
     (case arg_at vec (argv self) of
        None \<Rightarrow> Inl (Fault, m)
      | Some arg \<Rightarrow>
          if length arg = 2 then
            (case short_single strtof opts vec self m False of
               Inl e \<Rightarrow> Inl e
             | Inr (self', m', found) \<Rightarrow>
                 if \<not> found then Argparser_exitDueToUnknownOption self' vec m'
                 else Inr (self', m'))
          else if length arg < 1 then Inl (Fault, m)
          else
            (case short_compound strtof opts self vec (tl arg) m False of
               Inl e \<Rightarrow> Inl e
             | Inr (m', found) \<Rightarrow>
                 if \<not> found then Argparser_exitDueToUnknownOption self vec m'
                 else Inr (self, m')))"

subsection \<open>The long-option matcher\<close>

fun long_scan ::
  "(string \<Rightarrow> 'f \<times> string \<times> bool) \<Rightarrow> 'f ArgparserOption list \<Rightarrow> string \<Rightarrow> 'f memory \<Rightarrow> bool
     \<Rightarrow> ('f, 'f memory \<times> bool) result" where
  "long_scan strtof [] arg m foundOption = Inl (Fault, m)"
| "long_scan strtof (opt # opts) arg m foundOption =
     (if type opt = ARGPARSER_TYPE_END then Inr (m, foundOption)
      else
        (case longName opt of
           None \<Rightarrow> long_scan strtof opts arg m foundOption
         | Some name \<Rightarrow>
             if length name < 1 then long_scan strtof opts arg m foundOption
             else if length arg < 2 then Inl (Fault, m)
             else if \<not> strncmp_equal (drop 2 arg) name (length name)
             then long_scan strtof opts arg m foundOption
             else if char_at (drop (2 + length name) arg) 0 = CHR ''=''
             then
               (case Argparser_parseValue strtof opt
                       (Some (drop (2 + length name + 1) arg)) m of
                  Inl e \<Rightarrow> Inl e
                | Inr m' \<Rightarrow> long_scan strtof opts arg m' True)
             else if type opt = ARGPARSER_TYPE_BOOLEAN
             then
               (case Argparser_parseValue strtof opt None m of
                  Inl e \<Rightarrow> Inl e
                | Inr m' \<Rightarrow> long_scan strtof opts arg m' True)
             else long_scan strtof opts arg m foundOption))"

definition Argparser_parseLongOption ::
  "(string \<Rightarrow> 'f \<times> string \<times> bool) \<Rightarrow> 'f Argparser \<Rightarrow> 'f ArgparserOption list
     \<Rightarrow> string option list \<Rightarrow> 'f memory \<Rightarrow> ('f, 'f memory) result" where
  "Argparser_parseLongOption strtof self opts vec m =
     (case arg_at vec (argv self) of
        None \<Rightarrow> Inl (Fault, m)
      | Some arg \<Rightarrow>
          (case long_scan strtof opts arg m False of
             Inl e \<Rightarrow> Inl e
           | Inr (m', found) \<Rightarrow>
               if \<not> found then Argparser_exitDueToUnknownOption self vec m'
               else Inr m'))"

subsection \<open>The parse loop and the compaction\<close>

lemma short_single_argv:
  "short_single strtof opts vec self m found = Inr (self', m', found') \<Longrightarrow> argv self \<le> argv self'"
proof (induction opts arbitrary: self m found)
  case Nil
  then show ?case by simp
next
  case (Cons opt opts)
  show ?case
    using Cons.prems Cons.IH [of self m found] Cons.IH [of self _ True]
      Cons.IH [of "self\<lparr>argv := argv self + 1, argc := argc self - 1\<rparr>" _ True]
    by (fastforce split: if_splits option.splits sum.splits)
qed

lemma parseShortOption_argv:
  "Argparser_parseShortOption strtof self opts vec m = Inr (self', m') \<Longrightarrow> argv self \<le> argv self'"
  unfolding Argparser_parseShortOption_def Argparser_exitDueToUnknownOption_def
  by (auto split: option.splits if_splits sum.splits dest: short_single_argv)

function parse_loop ::
  "(string \<Rightarrow> 'f \<times> string \<times> bool) \<Rightarrow> 'f Argparser \<Rightarrow> string option list \<Rightarrow> 'f memory
     \<Rightarrow> ('f, 'f Argparser \<times> string option list \<times> 'f memory) result" where
  "parse_loop strtof self vec m =
     (if argc self = 0 then Inr (self, vec, m)
      else
        (case arg_at vec (argv self) of
           None \<Rightarrow> Inl (Fault, m)
         | Some arg \<Rightarrow>
             if char_at arg 0 \<noteq> CHR ''-'' \<or> char_at arg 1 = NUL then
               (if stopAtNonOption self then Inr (self, vec, m)
                else if 0 \<le> cpidx self \<and> out self + nat (cpidx self) < length vec then
                  parse_loop strtof
                    (self\<lparr>cpidx := cpidx self + 1, argc := argc self - 1, argv := argv self + 1\<rparr>)
                    (vec[out self + nat (cpidx self) := Some arg]) m
                else Inl (Fault, m))
             else if char_at arg 1 \<noteq> CHR ''-'' then
               (case Argparser_parseShortOption strtof self (options self) vec m of
                  Inl e \<Rightarrow> Inl e
                | Inr (self', m') \<Rightarrow>
                    parse_loop strtof (self'\<lparr>argc := argc self' - 1, argv := argv self' + 1\<rparr>)
                      vec m')
             else if char_at arg 2 \<noteq> NUL then
               (case Argparser_parseLongOption strtof self (options self) vec m of
                  Inl e \<Rightarrow> Inl e
                | Inr m' \<Rightarrow>
                    parse_loop strtof (self\<lparr>argc := argc self - 1, argv := argv self + 1\<rparr>)
                      vec m')
             else Inr (self\<lparr>argc := argc self - 1, argv := argv self + 1\<rparr>, vec, m)))"
  by pat_completeness auto
termination
  apply (relation "measure (\<lambda>(strtof, self, vec, m). length vec - argv self)")
  subgoal by simp
  subgoal for strtof self vec m arg
    by (simp add: arg_at_def split: if_splits)
  subgoal for strtof self vec m arg x2 self' m'
    using parseShortOption_argv [of strtof self "options self" vec m self' m']
    by (simp add: arg_at_def split: if_splits)
  subgoal for strtof self vec m arg
    by (simp add: arg_at_def split: if_splits)
  done

declare parse_loop.simps [simp del]

text \<open>
  \<open>memmove(dst, src, n * sizeof(char * ))\<close> inside the vector, with indices for the
  two pointers.
\<close>

definition memmove :: "string option list \<Rightarrow> nat \<Rightarrow> nat \<Rightarrow> int \<Rightarrow> string option list option" where
  "memmove vec dst src n =
     (if 0 \<le> n \<and> dst + nat n \<le> length vec \<and> src + nat n \<le> length vec
      then Some (take dst vec @ take (nat n) (drop src vec) @ drop (dst + nat n) vec)
      else None)"

text \<open>
  \<open>Argparser_parse(self, argc, argv)\<close>: the vector \<open>vec\<close> is the array that the
  argument \<open>argv\<close> points to. The result is the returned count, the handle, the vector
  and the memory after the call.
\<close>

definition Argparser_parse ::
  "(string \<Rightarrow> 'f \<times> string \<times> bool) \<Rightarrow> 'f Argparser \<Rightarrow> int \<Rightarrow> string option list \<Rightarrow> 'f memory
     \<Rightarrow> ('f, int \<times> 'f Argparser \<times> string option list \<times> 'f memory) result" where
  "Argparser_parse strtof self argc0 vec m =
     (if \<not> valid self then Inl (AssertionFailed ''self->valid'', m)
      else
        (case parse_loop strtof (self\<lparr>argc := argc0 - 1, argv := 1, out := 0\<rparr>) vec m of
           Inl e \<Rightarrow> Inl e
         | Inr (self', vec', m') \<Rightarrow>
             if cpidx self' < 0 then Inl (Fault, m')
             else
               (case memmove vec' (out self' + nat (cpidx self')) (argv self') (argc self') of
                  None \<Rightarrow> Inl (Fault, m')
                | Some vec'' \<Rightarrow>
                    if out self' + nat (cpidx self' + argc self') < length vec''
                    then Inr (cpidx self' + argc self', self',
                              vec''[out self' + nat (cpidx self' + argc self') := None], m')
                    else Inl (Fault, m'))))"

subsection \<open>The option macros and the table of Bud\<close>

definition ARGPARSER_OPT_BOOL ::
  "char \<Rightarrow> string option \<Rightarrow> nat option \<Rightarrow> string option \<Rightarrow> 'f ArgparserOption" where
  "ARGPARSER_OPT_BOOL short long ptr text =
     \<lparr>type = ARGPARSER_TYPE_BOOLEAN, shortName = short, longName = long, valuePtr = ptr,
      helpText = text, callback = None\<rparr>"

definition ARGPARSER_OPT_BOOL_CALLBACK ::
  "char \<Rightarrow> string option \<Rightarrow> nat option \<Rightarrow> string option \<Rightarrow> 'f Argparser_callback
     \<Rightarrow> 'f ArgparserOption" where
  "ARGPARSER_OPT_BOOL_CALLBACK short long ptr text f =
     \<lparr>type = ARGPARSER_TYPE_BOOLEAN, shortName = short, longName = long, valuePtr = ptr,
      helpText = text, callback = Some f\<rparr>"

definition ARGPARSER_OPT_INT ::
  "char \<Rightarrow> string option \<Rightarrow> nat option \<Rightarrow> string option \<Rightarrow> 'f ArgparserOption" where
  "ARGPARSER_OPT_INT short long ptr text =
     \<lparr>type = ARGPARSER_TYPE_INTEGER, shortName = short, longName = long, valuePtr = ptr,
      helpText = text, callback = None\<rparr>"

definition ARGPARSER_OPT_STRING ::
  "char \<Rightarrow> string option \<Rightarrow> nat option \<Rightarrow> string option \<Rightarrow> 'f ArgparserOption" where
  "ARGPARSER_OPT_STRING short long ptr text =
     \<lparr>type = ARGPARSER_TYPE_STRING, shortName = short, longName = long, valuePtr = ptr,
      helpText = text, callback = None\<rparr>"

definition ARGPARSER_OPT_GROUP :: "string \<Rightarrow> 'f ArgparserOption" where
  "ARGPARSER_OPT_GROUP text =
     \<lparr>type = ARGPARSER_TYPE_GROUP, shortName = NUL, longName = None, valuePtr = None,
      helpText = Some text, callback = None\<rparr>"

definition ARGPARSER_OPT_END :: "'f ArgparserOption" where
  "ARGPARSER_OPT_END =
     \<lparr>type = ARGPARSER_TYPE_END, shortName = NUL, longName = None, valuePtr = None,
      helpText = None, callback = None\<rparr>"

definition ARGPARSER_OPT_HELP :: "'f ArgparserOption" where
  "ARGPARSER_OPT_HELP =
     ARGPARSER_OPT_BOOL_CALLBACK (CHR ''h'') (Some ''help'') None
       (Some ''show this help message and exit'') Argparser_exitForHelp"

text \<open>The addresses of the five flags of \<open>bud.c\<close> and the table that \<open>main\<close> builds.\<close>

definition colorOutput :: nat where
  "colorOutput = 0"

definition inverse_flag :: nat where
  "inverse_flag = 1"

definition nochart :: nat where
  "nochart = 2"

definition noheader :: nat where
  "noheader = 3"

definition nototal :: nat where
  "nototal = 4"

definition bud_options :: "'f ArgparserOption list" where
  "bud_options =
     [ARGPARSER_OPT_HELP,
      ARGPARSER_OPT_BOOL (CHR ''c'') (Some ''color'') (Some colorOutput)
        (Some ''display with colors''),
      ARGPARSER_OPT_BOOL (CHR ''i'') (Some ''inverse'') (Some inverse_flag)
        (Some ''inverse the sign of all input''),
      ARGPARSER_OPT_BOOL NUL (Some ''nochart'') (Some nochart) (Some ''hide the chart''),
      ARGPARSER_OPT_BOOL NUL (Some ''noheader'') (Some noheader) (Some ''hide the header''),
      ARGPARSER_OPT_BOOL NUL (Some ''nototal'') (Some nototal) (Some ''hide the total''),
      ARGPARSER_OPT_END]"

text \<open>
  A memory with no cell written yet, and a \<open>strtof\<close> for a platform type with one
  value, for the tables that have no FLOAT option.
\<close>

definition no_cells :: "'f memory" where
  "no_cells = Map.empty"

definition strtof_unit :: "string \<Rightarrow> unit \<times> string \<times> bool" where
  "strtof_unit s = ((), [], False)"

subsection \<open>Predicates of the statements\<close>

text \<open>The exit of a failed \<open>assert(self->valid)\<close>.\<close>

definition validity_abort :: exit where
  "validity_abort = AssertionFailed ''self->valid''"


text \<open>The test of the loop for a token that is no option: \<open>arg[0] != '-' || !arg[1]\<close>.\<close>

definition plain_token :: "string \<Rightarrow> bool" where
  "plain_token arg = (char_at arg 0 \<noteq> CHR ''-'' \<or> char_at arg 1 = NUL)"

text \<open>
  The front of the vector that a returned count \<open>n\<close> designates, up to and including
  entry \<open>n\<close>, with the memory; an exit is passed on.
\<close>

definition residual ::
  "('f, int \<times> 'f Argparser \<times> string option list \<times> 'f memory) result
     \<Rightarrow> ('f, string option list \<times> 'f memory) result" where
  "residual r =
     (case r of
        Inl e \<Rightarrow> Inl e
      | Inr (n, self, vec, m) \<Rightarrow> Inr (take (nat n + 1) vec, m))"

text \<open>A table with the one BOOLEAN option \<open>-c\<close>, \<open>--color\<close> and a destination.\<close>

definition color_table :: "nat \<Rightarrow> string option \<Rightarrow> 'f ArgparserOption list" where
  "color_table p text =
     [ARGPARSER_OPT_BOOL (CHR ''c'') (Some ''color'') (Some p) text, ARGPARSER_OPT_END]"

text \<open>The entries that a scan of the table reaches, and a table that has its sentinel.\<close>

definition table_entries :: "'f ArgparserOption list \<Rightarrow> 'f ArgparserOption list" where
  "table_entries opts = takeWhile (\<lambda>opt. type opt \<noteq> ARGPARSER_TYPE_END) opts"

definition terminated :: "'f ArgparserOption list \<Rightarrow> bool" where
  "terminated opts = (ARGPARSER_TYPE_END \<in> type ` set opts)"

text \<open>
  The compound form in the words of the specification (section 4.2): for each character,
  the entries of the table with that short name are dispatched to the value converter with
  no value, in table order; a character with no entry raises unknown-option at once.
\<close>

fun valueless_dispatch ::
  "(string \<Rightarrow> 'f \<times> string \<times> bool) \<Rightarrow> 'f ArgparserOption list \<Rightarrow> 'f memory
     \<Rightarrow> ('f, 'f memory) result" where
  "valueless_dispatch strtof [] m = Inr m"
| "valueless_dispatch strtof (opt # opts) m =
     (case Argparser_parseValue strtof opt None m of
        Inl e \<Rightarrow> Inl e
      | Inr m' \<Rightarrow> valueless_dispatch strtof opts m')"

fun compound_flags ::
  "(string \<Rightarrow> 'f \<times> string \<times> bool) \<Rightarrow> 'f ArgparserOption list \<Rightarrow> string \<Rightarrow> string
     \<Rightarrow> 'f memory \<Rightarrow> ('f, 'f memory) result" where
  "compound_flags strtof opts arg [] m = Inr m"
| "compound_flags strtof opts arg (c # cs) m =
     (if filter (\<lambda>opt. shortName opt = c) (table_entries opts) = []
      then Inl (UnknownOption arg, m)
      else
        (case valueless_dispatch strtof (filter (\<lambda>opt. shortName opt = c) (table_entries opts)) m of
           Inl e \<Rightarrow> Inl e
         | Inr m' \<Rightarrow> compound_flags strtof opts arg cs m'))"

text \<open>A callback that records its call in a cell and returns.\<close>

definition flag_callback :: "nat \<Rightarrow> 'f Argparser_callback" where
  "flag_callback q m = Inr (m(q \<mapsto> BoolV True))"

text \<open>The test of the loop for the token that ends option parsing.\<close>

definition terminator_token :: "string \<Rightarrow> bool" where
  "terminator_token arg =
     (\<not> plain_token arg \<and> char_at arg 1 = CHR ''-'' \<and> char_at arg 2 = NUL)"

text \<open>
  The state of the loop on a vector whose first \<open>A\<close> entries are the arguments: the
  output starts at the base of the vector, the write index is behind the cursor, and the
  count is what is left from the cursor on.
\<close>

definition loop_inv :: "nat \<Rightarrow> 'f Argparser \<Rightarrow> string option list \<Rightarrow> bool" where
  "loop_inv A self vec =
     (out self = 0 \<and> 0 \<le> cpidx self \<and> nat (cpidx self) < argv self \<and> argv self \<le> A
      \<and> argc self = int A - int (argv self) \<and> A \<le> length vec)"

text \<open>
  What a run of the loop from \<open>self\<close>, \<open>vec\<close> to \<open>self'\<close>, \<open>vec'\<close> has done:
  the tokens \<open>qs\<close>, each one plain and in vector order, were copied behind the ones
  copied before; the vector from the new cursor on is untouched; the run ended at the end,
  behind a terminator or, when stopping is requested, in front of a plain token; it
  passed over no terminator but the one that ended it; and when stopping is requested, a
  plain token that it passed over follows a two-character token or another such value;
  and when stopping is not requested and every token that it passed over is plain, all of
  them were copied.
\<close>

definition compacted ::
  "nat \<Rightarrow> 'f Argparser \<Rightarrow> string option list \<Rightarrow> 'f Argparser \<Rightarrow> string option list
     \<Rightarrow> string list \<Rightarrow> bool" where
  "compacted A self vec self' vec' qs =
     (loop_inv A self' vec' \<and> argv self \<le> argv self' \<and> length vec' = length vec
      \<and> stopAtNonOption self' = stopAtNonOption self
      \<and> drop (argv self') vec' = drop (argv self') vec
      \<and> take (nat (cpidx self')) vec' = take (nat (cpidx self)) vec @ map Some qs
      \<and> subseq (map Some qs) (take (argv self' - argv self) (drop (argv self) vec))
      \<and> list_all plain_token qs
      \<and> (stopAtNonOption self \<longrightarrow> qs = [])
      \<and> (argv self' = A
          \<or> (argv self < argv self' \<and> (\<exists>t. vec ! (argv self' - 1) = Some t \<and> terminator_token t))
          \<or> (stopAtNonOption self \<and> argv self' < A
              \<and> (\<exists>t. vec ! argv self' = Some t \<and> plain_token t)))
      \<and> (\<forall>k t. argv self \<le> k \<and> k < argv self' \<and> vec ! k = Some t \<and> terminator_token t
            \<longrightarrow> k + 1 = argv self')
      \<and> (\<forall>k t. stopAtNonOption self \<and> argv self \<le> k \<and> k < argv self' \<and> vec ! k = Some t
              \<and> plain_token t
            \<longrightarrow> argv self < k
                \<and> (\<exists>u. vec ! (k - 1) = Some u \<and> (length u = 2 \<or> char_at u 0 \<noteq> CHR ''-'')))
      \<and> (\<not> stopAtNonOption self
            \<and> (\<forall>k. argv self \<le> k \<and> k < argv self' \<longrightarrow> (\<exists>t. vec ! k = Some t \<and> plain_token t))
          \<longrightarrow> map Some qs = take (argv self' - argv self) (drop (argv self) vec)))"

text \<open>No callback of the table ends the process with the exit of an unknown option itself.\<close>

definition callbacks_do_not_raise_unknown :: "'f ArgparserOption list \<Rightarrow> bool" where
  "callbacks_do_not_raise_unknown opts =
     (\<forall>opt \<in> set opts. \<forall>f m u m'. callback opt = Some f \<longrightarrow> f m \<noteq> Inl (UnknownOption u, m'))"

text \<open>
  The integer constants that \<open>strtol\<close> reads with base 0, in the words of the C standard:
  optional white space, an optional sign, then a decimal constant (digits, the first not
  \<open>0\<close>), a hexadecimal constant (\<open>0x\<close> or \<open>0X\<close> and hexadecimal digits) or an octal
  constant (\<open>0\<close> and octal digits). \<open>digit_of\<close> is the value of a digit character,
  \<open>numeral_value\<close> the value of a digit string in a base, most significant digit first.
\<close>

definition digit_of :: "char \<Rightarrow> nat option" where
  "digit_of c =
     map_of (zip ''0123456789abcdefABCDEF''
               [0, 1, 2, 3, 4, 5, 6, 7, 8, 9, 10, 11, 12, 13, 14, 15, 10, 11, 12, 13, 14, 15]) c"

definition digit_below :: "nat \<Rightarrow> char \<Rightarrow> bool" where
  "digit_below base c = (case digit_of c of None \<Rightarrow> False | Some d \<Rightarrow> d < base)"

fun numeral_rev :: "nat \<Rightarrow> string \<Rightarrow> int" where
  "numeral_rev base [] = 0"
| "numeral_rev base (c # cs) = int (the (digit_of c)) + int base * numeral_rev base cs"

definition numeral_value :: "nat \<Rightarrow> string \<Rightarrow> int" where
  "numeral_value base ds = numeral_rev base (rev ds)"

text \<open>
  The digits \<open>ds\<close> after the prefix \<open>pfx\<close> form a constant of the base.
\<close>

definition integer_constant :: "nat \<Rightarrow> string \<Rightarrow> string \<Rightarrow> bool" where
  "integer_constant base pfx ds =
     (list_all (digit_below base) ds
      \<and> (base = 10 \<and> pfx = [] \<and> ds \<noteq> [] \<and> hd ds \<noteq> CHR ''0''
         \<or> base = 16 \<and> (pfx = ''0x'' \<or> pfx = ''0X'') \<and> ds \<noteq> []
         \<or> base = 8 \<and> pfx = ''0''))"

text \<open>
  The constant ends where \<open>tail\<close> starts: the first character of \<open>tail\<close> (NUL when
  \<open>tail\<close> is empty) is no digit of the base, and a lone \<open>0\<close> is not followed by
  \<open>x\<close>.
\<close>

definition ends_constant :: "nat \<Rightarrow> string \<Rightarrow> string \<Rightarrow> bool" where
  "ends_constant base ds tail =
     (\<not> digit_below base (char_at tail 0)
      \<and> (base = 8 \<and> ds = [] \<longrightarrow> char_at tail 0 \<noteq> CHR ''x'' \<and> char_at tail 0 \<noteq> CHR ''X''))"

text \<open>White space, and the value under the sign.\<close>

definition blanks :: "string \<Rightarrow> bool" where
  "blanks ws = (set ws \<subseteq> {CHR '' '', CHR 0x09, CHR 0x0A, CHR 0x0B, CHR 0x0C, CHR 0x0D})"

definition signed_value :: "string \<Rightarrow> int \<Rightarrow> int" where
  "signed_value sg v = (if sg = ''-'' then - v else v)"


section \<open>Properties\<close>

subsection \<open>One iteration of the parse loop\<close>

lemma parse_loop_done:
  "argc self = 0 \<Longrightarrow> parse_loop strtof self vec m = Inr (self, vec, m)"
  by (subst parse_loop.simps) simp

lemma parse_loop_fault:
  "argc self \<noteq> 0 \<Longrightarrow> arg_at vec (argv self) = None \<Longrightarrow>
     parse_loop strtof self vec m = Inl (Fault, m)"
  by (subst parse_loop.simps) simp

lemma parse_loop_stop:
  "argc self \<noteq> 0 \<Longrightarrow> arg_at vec (argv self) = Some arg \<Longrightarrow> plain_token arg \<Longrightarrow>
     stopAtNonOption self \<Longrightarrow> parse_loop strtof self vec m = Inr (self, vec, m)"
  by (subst parse_loop.simps) (simp add: plain_token_def)

lemma parse_loop_copy:
  "argc self \<noteq> 0 \<Longrightarrow> arg_at vec (argv self) = Some arg \<Longrightarrow> plain_token arg \<Longrightarrow>
     \<not> stopAtNonOption self \<Longrightarrow>
     parse_loop strtof self vec m =
       (if 0 \<le> cpidx self \<and> out self + nat (cpidx self) < length vec
        then parse_loop strtof
               (self\<lparr>cpidx := cpidx self + 1, argc := argc self - 1, argv := argv self + 1\<rparr>)
               (vec[out self + nat (cpidx self) := Some arg]) m
        else Inl (Fault, m))"
  by (subst parse_loop.simps) (simp add: plain_token_def)

lemma parse_loop_short:
  "argc self \<noteq> 0 \<Longrightarrow> arg_at vec (argv self) = Some arg \<Longrightarrow> \<not> plain_token arg \<Longrightarrow>
     char_at arg 1 \<noteq> CHR ''-'' \<Longrightarrow>
     parse_loop strtof self vec m =
       (case Argparser_parseShortOption strtof self (options self) vec m of
          Inl e \<Rightarrow> Inl e
        | Inr (self', m') \<Rightarrow>
            parse_loop strtof (self'\<lparr>argc := argc self' - 1, argv := argv self' + 1\<rparr>) vec m')"
  by (subst parse_loop.simps) (simp add: plain_token_def)

lemma parse_loop_long:
  "argc self \<noteq> 0 \<Longrightarrow> arg_at vec (argv self) = Some arg \<Longrightarrow> \<not> plain_token arg \<Longrightarrow>
     char_at arg 1 = CHR ''-'' \<Longrightarrow> char_at arg 2 \<noteq> NUL \<Longrightarrow>
     parse_loop strtof self vec m =
       (case Argparser_parseLongOption strtof self (options self) vec m of
          Inl e \<Rightarrow> Inl e
        | Inr m' \<Rightarrow>
            parse_loop strtof (self\<lparr>argc := argc self - 1, argv := argv self + 1\<rparr>) vec m')"
  by (subst parse_loop.simps) (simp add: plain_token_def)

lemma parse_loop_terminator:
  "argc self \<noteq> 0 \<Longrightarrow> arg_at vec (argv self) = Some arg \<Longrightarrow> \<not> plain_token arg \<Longrightarrow>
     char_at arg 1 = CHR ''-'' \<Longrightarrow> char_at arg 2 = NUL \<Longrightarrow>
     parse_loop strtof self vec m =
       Inr (self\<lparr>argc := argc self - 1, argv := argv self + 1\<rparr>, vec, m)"
  by (subst parse_loop.simps) (simp add: plain_token_def)

lemma parse_loop_induct [case_names exhausted fault stop copy_fault copy short_option long_option terminator]:
  assumes "\<And>strtof self vec m. argc self = 0 \<Longrightarrow> P strtof self vec m"
    and "\<And>strtof self vec m. argc self \<noteq> 0 \<Longrightarrow> arg_at vec (argv self) = None \<Longrightarrow> P strtof self vec m"
    and "\<And>strtof self vec m arg. argc self \<noteq> 0 \<Longrightarrow> arg_at vec (argv self) = Some arg \<Longrightarrow>
           plain_token arg \<Longrightarrow> stopAtNonOption self \<Longrightarrow> P strtof self vec m"
    and "\<And>strtof self vec m arg. argc self \<noteq> 0 \<Longrightarrow> arg_at vec (argv self) = Some arg \<Longrightarrow>
           plain_token arg \<Longrightarrow> \<not> stopAtNonOption self \<Longrightarrow>
           \<not> (0 \<le> cpidx self \<and> out self + nat (cpidx self) < length vec) \<Longrightarrow> P strtof self vec m"
    and "\<And>strtof self vec m arg. argc self \<noteq> 0 \<Longrightarrow> arg_at vec (argv self) = Some arg \<Longrightarrow>
           plain_token arg \<Longrightarrow> \<not> stopAtNonOption self \<Longrightarrow>
           0 \<le> cpidx self \<Longrightarrow> out self + nat (cpidx self) < length vec \<Longrightarrow>
           P strtof (self\<lparr>cpidx := cpidx self + 1, argc := argc self - 1, argv := argv self + 1\<rparr>)
             (vec[out self + nat (cpidx self) := Some arg]) m \<Longrightarrow>
           P strtof self vec m"
    and "\<And>strtof self vec m arg. argc self \<noteq> 0 \<Longrightarrow> arg_at vec (argv self) = Some arg \<Longrightarrow>
           \<not> plain_token arg \<Longrightarrow> char_at arg 1 \<noteq> CHR ''-'' \<Longrightarrow>
           (\<And>self' m'. Argparser_parseShortOption strtof self (options self) vec m = Inr (self', m')
              \<Longrightarrow> P strtof (self'\<lparr>argc := argc self' - 1, argv := argv self' + 1\<rparr>) vec m') \<Longrightarrow>
           P strtof self vec m"
    and "\<And>strtof self vec m arg. argc self \<noteq> 0 \<Longrightarrow> arg_at vec (argv self) = Some arg \<Longrightarrow>
           \<not> plain_token arg \<Longrightarrow> char_at arg 1 = CHR ''-'' \<Longrightarrow> char_at arg 2 \<noteq> NUL \<Longrightarrow>
           (\<And>m'. Argparser_parseLongOption strtof self (options self) vec m = Inr m'
              \<Longrightarrow> P strtof (self\<lparr>argc := argc self - 1, argv := argv self + 1\<rparr>) vec m') \<Longrightarrow>
           P strtof self vec m"
    and "\<And>strtof self vec m arg. argc self \<noteq> 0 \<Longrightarrow> arg_at vec (argv self) = Some arg \<Longrightarrow>
           \<not> plain_token arg \<Longrightarrow> char_at arg 1 = CHR ''-'' \<Longrightarrow> char_at arg 2 = NUL \<Longrightarrow>
           P strtof self vec m"
  shows "P strtof self vec m"
proof (induction strtof self vec m rule: parse_loop.induct)
  case (1 strtof self vec m)
  show ?case
  proof (cases "argc self = 0")
    case True
    then show ?thesis by (rule assms(1))
  next
    case nz: False
    show ?thesis
    proof (cases "arg_at vec (argv self)")
      case None
      with nz show ?thesis by (rule assms(2))
    next
      case (Some arg)
      show ?thesis
      proof (cases "plain_token arg")
        case pl: True
        show ?thesis
        proof (cases "stopAtNonOption self")
          case True
          with nz Some pl show ?thesis by (rule assms(3))
        next
          case ns: False
          show ?thesis
          proof (cases "0 \<le> cpidx self \<and> out self + nat (cpidx self) < length vec")
            case False
            with nz Some pl ns show ?thesis by (rule assms(4))
          next
            case True
            then have a: "0 \<le> cpidx self" and b: "out self + nat (cpidx self) < length vec"
              by simp_all
            show ?thesis
              using nz Some pl ns a b
            proof (rule assms(5))
              show "P strtof (self\<lparr>cpidx := cpidx self + 1, argc := argc self - 1, argv := argv self + 1\<rparr>)
                      (vec[out self + nat (cpidx self) := Some arg]) m"
                using "1.IH"(1) [OF nz Some _ ns] pl a b by (simp add: plain_token_def)
            qed
          qed
        qed
      next
        case np: False
        show ?thesis
        proof (cases "char_at arg 1 \<noteq> CHR ''-''")
          case sh: True
          show ?thesis
            using nz Some np sh
          proof (rule assms(6))
            fix self' m'
            assume r: "Argparser_parseShortOption strtof self (options self) vec m = Inr (self', m')"
            show "P strtof (self'\<lparr>argc := argc self' - 1, argv := argv self' + 1\<rparr>) vec m'"
              using "1.IH"(2) [OF nz Some _ sh r refl] np by (simp add: plain_token_def)
          qed
        next
          case False
          then have dd: "char_at arg 1 = CHR ''-''" by simp
          show ?thesis
          proof (cases "char_at arg 2 \<noteq> NUL")
            case lg: True
            show ?thesis
              using nz Some np dd lg
            proof (rule assms(7))
              fix m'
              assume r: "Argparser_parseLongOption strtof self (options self) vec m = Inr m'"
              show "P strtof (self\<lparr>argc := argc self - 1, argv := argv self + 1\<rparr>) vec m'"
                using "1.IH"(3) [OF nz Some _ _ lg r] np dd by (simp add: plain_token_def)
            qed
          next
            case False
            then have "char_at arg 2 = NUL" by simp
            with nz Some np dd show ?thesis by (rule assms(8))
          qed
        qed
      qed
    qed
  qed
qed

subsection \<open>The validity assertion is the only source of its exit\<close>

lemma following_value_Fault: "following_value self vec = Inl e \<Longrightarrow> e = Fault"
  by (auto simp: following_value_def split: option.splits if_splits)

lemma validity_abort_simps [simp]:
  "Fault \<noteq> validity_abort" "validity_abort \<noteq> Fault" "UnknownOption a \<noteq> validity_abort"
  "InvalidValue c l r \<noteq> validity_abort" "AssertionFailed ''0'' \<noteq> validity_abort"
  by (simp_all add: validity_abort_def)





lemma unknown_abort [simp]:
  "Argparser_exitDueToUnknownOption self vec m \<noteq> Inl (validity_abort, m')"
  by (simp add: Argparser_exitDueToUnknownOption_def split: option.splits)











subsection \<open>Claims about the value converter and the lifecycle\<close>

lemma strtol_12abc: "strtol ''12abc'' = (12, ''abc'', False)"
  by code_simp

lemma strtol_12: "strtol ''12'' = (12, [], False)"
  by code_simp

lemma strtol_0x1F: "strtol ''0x1F'' = (31, [], False)"
  by code_simp

lemma strtol_017: "strtol ''017'' = (15, [], False)"
  by code_simp

lemma long_to_int_small: "long_to_int 12 = 12" "long_to_int 31 = 31" "long_to_int 15 = 15"
  by (simp_all add: long_to_int_def)

lemma digit_of_cases:
  assumes "digit_of c = Some d"
  shows "c \<in> set ''0123456789abcdefABCDEF''"
  using assms by (auto simp: digit_of_def split: if_splits)

lemma digit_of_value:
  assumes "digit_of c = Some d"
  shows "digit_value c = d"
  using assms by (auto simp: digit_of_def digit_value_def split: if_splits)

lemma digit_value_digit_of:
  assumes "digit_value c < 16"
  shows "digit_of c = Some (digit_value c)"
proof -
  let ?n = "of_char c :: nat"
  from assms have "(48 \<le> ?n \<and> ?n \<le> 57) \<or> (97 \<le> ?n \<and> ?n \<le> 102) \<or> (65 \<le> ?n \<and> ?n \<le> 70)"
    by (simp add: digit_value_def Let_def split: if_splits; arith)
  then have "?n \<in> of_char ` set ''0123456789abcdefABCDEF''"
    by (simp; arith)
  then have "c \<in> set ''0123456789abcdefABCDEF''"
    by (auto simp only: of_char_eq_iff image_iff)
  then show ?thesis
    by (auto simp: digit_of_def digit_value_def)
qed

lemma digit_below_iff:
  assumes "base \<le> 16"
  shows "digit_below base c \<longleftrightarrow> digit_value c < base"
proof
  assume "digit_below base c"
  then show "digit_value c < base"
    by (auto simp: digit_below_def digit_of_value split: option.splits)
next
  assume a: "digit_value c < base"
  with assms have "digit_value c < 16" by simp
  from digit_value_digit_of [OF this] a show "digit_below base c"
    by (simp add: digit_below_def)
qed

lemma digit_below_value:
  assumes "digit_below base c"
  shows "the (digit_of c) = digit_value c"
  using assms by (auto simp: digit_below_def digit_of_value split: option.splits)

lemma digit_below_plain:
  assumes "digit_below base c"
  shows "\<not> isspace c" "c \<noteq> CHR ''-''" "c \<noteq> CHR ''+''" "c \<noteq> CHR ''x''" "c \<noteq> CHR ''X''"
    "c \<noteq> NUL"
  using assms digit_of_cases [of c]
  by (auto simp: digit_below_def isspace_def NUL_def split: option.splits)

lemma foldl_numeral_value:
  assumes "list_all (digit_below base) ds"
  shows "foldl (\<lambda>a c. a * int base + int (digit_value c)) 0 ds = numeral_value base ds"
  using assms
proof (induction ds rule: rev_induct)
  case Nil
  show ?case by (simp add: numeral_value_def)
next
  case (snoc c ds)
  then show ?case
    by (simp add: numeral_value_def digit_below_value [of base c])
qed

lemma digits_then_tail:
  assumes b: "base \<le> 16" and ds: "list_all (digit_below base) ds"
    and t: "\<not> digit_below base (char_at tail 0)"
  shows "takeWhile (\<lambda>c. digit_value c < base) (ds @ tail) = ds"
    and "dropWhile (\<lambda>c. digit_value c < base) (ds @ tail) = tail"
proof -
  have all: "\<forall>c \<in> set ds. digit_value c < base"
    using ds digit_below_iff [OF b] by (simp add: list_all_iff)
  have hd: "tail = [] \<or> \<not> digit_value (hd tail) < base"
    using t digit_below_iff [OF b] by (cases tail) (simp_all add: char_at_def)
  from hd have "takeWhile (\<lambda>c. digit_value c < base) tail = []"
    by (cases tail) auto
  with all show "takeWhile (\<lambda>c. digit_value c < base) (ds @ tail) = ds"
    by (simp add: takeWhile_append2)
  from hd have "dropWhile (\<lambda>c. digit_value c < base) tail = tail"
    by (cases tail) auto
  with all show "dropWhile (\<lambda>c. digit_value c < base) (ds @ tail) = tail"
    by (simp add: dropWhile_append2)
qed

lemma strtol_digits_numeral:
  assumes b: "base \<le> 16" and ds: "list_all (digit_below base) ds" and ne: "ds \<noteq> []"
    and t: "\<not> digit_below base (char_at tail 0)"
    and lo: "LONG_MIN \<le> (if neg then - numeral_value base ds else numeral_value base ds)"
    and hi: "(if neg then - numeral_value base ds else numeral_value base ds) \<le> LONG_MAX"
  shows "strtol_digits base neg (ds @ tail) orig =
           (if neg then - numeral_value base ds else numeral_value base ds, tail, False)"
  using lo hi ne
  by (cases neg)
    (simp_all add: strtol_digits_def Let_def digits_then_tail [OF b ds t]
      foldl_numeral_value [OF ds])

lemma skip_blanks:
  assumes "blanks ws" and "r \<noteq> []" and "\<not> isspace (hd r)"
  shows "dropWhile isspace (ws @ r) = r"
proof -
  from assms(1) have "\<forall>c \<in> set ws. isspace c"
    by (auto simp: blanks_def isspace_def)
  moreover from assms(2,3) have "dropWhile isspace r = r"
    by (cases r) auto
  ultimately show ?thesis
    by (simp add: dropWhile_append2)
qed

lemma numeral_rev_append:
  "numeral_rev base (xs @ ys) = numeral_rev base xs + int base ^ length xs * numeral_rev base ys"
  by (induction xs) (simp_all add: algebra_simps)

lemma numeral_value_zero: "numeral_value base (CHR ''0'' # ds) = numeral_value base ds"
  by (simp add: numeral_value_def numeral_rev_append digit_of_def)

lemma strtol_sign:
  assumes ws: "blanks ws" and sg: "sg = [] \<or> sg = ''-'' \<or> sg = ''+''"
    and ne: "s2 \<noteq> []" and d: "digit_below base (hd s2)"
  shows "strtol (ws @ sg @ s2) =
           (if char_at s2 0 = CHR ''0'' \<and> (char_at s2 1 = CHR ''x'' \<or> char_at s2 1 = CHR ''X'')
               \<and> digit_value (char_at s2 2) < 16
            then strtol_digits 16 (sg = ''-'') (drop 2 s2) (ws @ sg @ s2)
            else if char_at s2 0 = CHR ''0'' then strtol_digits 8 (sg = ''-'') s2 (ws @ sg @ s2)
            else strtol_digits 10 (sg = ''-'') s2 (ws @ sg @ s2))"
proof -
  note p = digit_below_plain [OF d]
  from ne have h: "char_at s2 0 = hd s2"
    by (cases s2) (simp_all add: char_at_def)
  have "sg @ s2 \<noteq> []" "\<not> isspace (hd (sg @ s2))"
    using sg ne p(1) by (auto simp: isspace_def)
  from skip_blanks [OF ws this] have skip: "dropWhile isspace (ws @ sg @ s2) = sg @ s2" .
  from sg consider "sg = []" | "sg = ''-''" | "sg = ''+''" by blast
  then show ?thesis
  proof cases
    case 1
    have "char_at (sg @ s2) 0 \<noteq> CHR ''-''" "char_at (sg @ s2) 0 \<noteq> CHR ''+''"
      using 1 h p(2,3) by simp_all
    then show ?thesis
      unfolding strtol_def skip Let_def using 1 by simp
  next
    case 2
    have "char_at (sg @ s2) 0 = CHR ''-''"
      using 2 by (simp add: char_at_def)
    then show ?thesis
      unfolding strtol_def skip Let_def using 2 by simp
  next
    case 3
    have "char_at (sg @ s2) 0 = CHR ''+''"
      using 3 by (simp add: char_at_def)
    then show ?thesis
      unfolding strtol_def skip Let_def using 3 by simp
  qed
qed

lemma strtol_integer_constant:
  assumes ic: "integer_constant base pfx ds" and ec: "ends_constant base ds tail"
    and ws: "blanks ws" and sg: "sg = [] \<or> sg = ''-'' \<or> sg = ''+''"
    and lo: "LONG_MIN \<le> signed_value sg (numeral_value base ds)"
    and hi: "signed_value sg (numeral_value base ds) \<le> LONG_MAX"
  shows "strtol (ws @ sg @ pfx @ ds @ tail) =
           (signed_value sg (numeral_value base ds), tail, False)"
proof -
  from ic have ds: "list_all (digit_below base) ds"
    by (simp add: integer_constant_def)
  from ec have t: "\<not> digit_below base (char_at tail 0)"
    by (simp add: ends_constant_def)
  from ic consider
    (dec) "base = 10" "pfx = []" "ds \<noteq> []" "hd ds \<noteq> CHR ''0''"
    | (hex) "base = 16" "pfx = ''0x'' \<or> pfx = ''0X''" "ds \<noteq> []"
    | (oct) "base = 8" "pfx = ''0''"
    by (auto simp: integer_constant_def)
  then show ?thesis
  proof cases
    case dec
    let ?s2 = "ds @ tail"
    from dec(3) ds have d: "digit_below base (hd ?s2)" and ne: "?s2 \<noteq> []"
      by (cases ds; simp)+
    from dec(3,4) have c0: "char_at ?s2 0 \<noteq> CHR ''0''"
      by (cases ds) (simp_all add: char_at_def)
    have b: "base \<le> 16" using dec(1) by simp
    from strtol_sign [OF ws sg ne d] c0
    have "strtol (ws @ sg @ ?s2) = strtol_digits 10 (sg = ''-'') ?s2 (ws @ sg @ ?s2)"
      by simp
    also have "\<dots> = (signed_value sg (numeral_value base ds), tail, False)"
      using strtol_digits_numeral [OF b ds dec(3) t lo [unfolded signed_value_def]
          hi [unfolded signed_value_def], of "ws @ sg @ ?s2"]
      unfolding dec(1) by (simp add: signed_value_def)
    finally show ?thesis using dec(2) by simp
  next
    case hex
    let ?s2 = "pfx @ ds @ tail"
    have b: "base \<le> 16" using hex(1) by simp
    have z: "digit_below base (CHR ''0'')"
      using hex(1) by (simp add: digit_below_def digit_of_def)
    from hex(2) have d: "digit_below base (hd ?s2)" and ne: "?s2 \<noteq> []"
      using z by auto
    from hex(3) ds have "digit_below base (hd ds)"
      by (cases ds) simp_all
    with digit_below_iff [OF b] hex(1) have "digit_value (hd ds) < 16"
      by simp
    with hex(2,3) have c: "char_at ?s2 0 = CHR ''0''"
      "char_at ?s2 1 = CHR ''x'' \<or> char_at ?s2 1 = CHR ''X''"
      "digit_value (char_at ?s2 2) < 16" "drop 2 ?s2 = ds @ tail"
      by (cases ds; auto simp: char_at_def)+
    from strtol_sign [OF ws sg ne d] c
    have "strtol (ws @ sg @ ?s2) = strtol_digits 16 (sg = ''-'') (ds @ tail) (ws @ sg @ ?s2)"
      by simp
    also have "\<dots> = (signed_value sg (numeral_value base ds), tail, False)"
      using strtol_digits_numeral [OF b ds hex(3) t lo [unfolded signed_value_def]
          hi [unfolded signed_value_def], of "ws @ sg @ ?s2"]
      unfolding hex(1) by (simp add: signed_value_def)
    finally show ?thesis .
  next
    case oct
    let ?s2 = "pfx @ ds @ tail" and ?ds = "CHR ''0'' # ds"
    have b: "base \<le> 16" using oct(1) by simp
    have z: "digit_below base (CHR ''0'')"
      using oct(1) by (simp add: digit_below_def digit_of_def)
    from oct(2) have d: "digit_below base (hd ?s2)" and ne: "?s2 \<noteq> []"
      using z by auto
    have ds0: "list_all (digit_below base) ?ds"
      using ds z by simp
    have c0: "char_at ?s2 0 = CHR ''0''"
      using oct(2) by (simp add: char_at_def)
    have c1: "char_at ?s2 1 \<noteq> CHR ''x'' \<and> char_at ?s2 1 \<noteq> CHR ''X''"
    proof (cases ds)
      case Nil
      with ec oct show ?thesis
        by (cases tail) (simp_all add: ends_constant_def char_at_def)
    next
      case (Cons c cs)
      with ds have "digit_below base c" by simp
      from digit_below_plain(4,5) [OF this] Cons oct(2) show ?thesis
        by (simp add: char_at_def)
    qed
    from strtol_sign [OF ws sg ne d] c0 c1
    have "strtol (ws @ sg @ ?s2) = strtol_digits 8 (sg = ''-'') ?s2 (ws @ sg @ ?s2)"
      by simp
    also have "?s2 = ?ds @ tail"
      using oct(2) by simp
    also have "strtol_digits 8 (sg = ''-'') (?ds @ tail) (ws @ sg @ ?ds @ tail) =
        (signed_value sg (numeral_value base ds), tail, False)"
    proof -
      have lo0: "LONG_MIN \<le> (if sg = ''-'' then - numeral_value base ?ds else numeral_value base ?ds)"
        and hi0: "(if sg = ''-'' then - numeral_value base ?ds else numeral_value base ?ds) \<le> LONG_MAX"
        using lo hi by (auto simp: signed_value_def numeral_value_zero split: if_splits)
      have "?ds \<noteq> []" by simp
      from strtol_digits_numeral [OF b ds0 this t lo0 hi0, of "ws @ sg @ ?ds @ tail"]
      show ?thesis
        unfolding oct(1) by (simp add: signed_value_def numeral_value_zero)
    qed
    finally show ?thesis using oct(2) by simp
  qed
qed

lemma long_to_int_id:
  assumes "- (2 ^ 31) \<le> v" and "v < 2 ^ 31"
  shows "long_to_int v = v"
  using assms by (simp add: long_to_int_def)

text \<open>
  C7. For an INTEGER option with a destination, the text \<open>12abc\<close> ends the process
  with InvalidValue and the reason "expects an integer value" (the destination holds 12 by
  then), the text \<open>12\<close> writes 12 and goes on to the callback, an absent or empty text
  ends the process with the reason "requires a value", and the prefixes \<open>0x\<close> and
  \<open>0\<close> are read as hexadecimal and octal: \<open>0x1F\<close> writes 31 and \<open>017\<close> writes 15.
  In general, for every text that is white space, an optional sign and a decimal,
  hexadecimal (\<open>0x\<close> or \<open>0X\<close>, digits in either case) or octal constant whose value
  fits a \<open>long\<close>, followed by a tail that does not continue the constant: the destination
  receives the value of the constant in its base, narrowed to \<open>int\<close>; with an empty tail
  the callback runs, with any other tail the process ends with InvalidValue and the reason
  "expects an integer value". The narrowing keeps every value that fits an \<open>int\<close>.
\<close>

theorem integer_conversion:
  "type option = ARGPARSER_TYPE_INTEGER \<and> valuePtr option = Some p \<longrightarrow>
     Argparser_parseValue strtof option (Some ''12abc'') m =
       Inl (InvalidValue (shortName option) (longName option) ''expects an integer value'',
            m(p \<mapsto> IntV 12))
     \<and> Argparser_parseValue strtof option (Some ''12'') m =
         run_callback option (m(p \<mapsto> IntV 12))
     \<and> Argparser_parseValue strtof option None m =
         Inl (InvalidValue (shortName option) (longName option) ''requires a value'', m)
     \<and> Argparser_parseValue strtof option (Some []) m =
         Inl (InvalidValue (shortName option) (longName option) ''requires a value'', m)
     \<and> Argparser_parseValue strtof option (Some ''0x1F'') m =
         run_callback option (m(p \<mapsto> IntV 31))
     \<and> Argparser_parseValue strtof option (Some ''017'') m =
         run_callback option (m(p \<mapsto> IntV 15))
     \<and> (integer_constant base pfx ds \<and> ends_constant base ds tail \<and> blanks ws
          \<and> (sg = [] \<or> sg = ''-'' \<or> sg = ''+'')
          \<and> LONG_MIN \<le> signed_value sg (numeral_value base ds)
          \<and> signed_value sg (numeral_value base ds) \<le> LONG_MAX \<longrightarrow>
        Argparser_parseValue strtof option (Some (ws @ sg @ pfx @ ds @ tail)) m =
          (if char_at tail 0 = NUL
           then run_callback option
                  (m(p \<mapsto> IntV (long_to_int (signed_value sg (numeral_value base ds)))))
           else Inl (InvalidValue (shortName option) (longName option)
                       ''expects an integer value'',
                     m(p \<mapsto> IntV (long_to_int (signed_value sg (numeral_value base ds)))))))
     \<and> (- (2 ^ 31) \<le> v \<and> v < 2 ^ 31 \<longrightarrow> long_to_int v = v)"
proof (intro impI)
  assume o: "type option = ARGPARSER_TYPE_INTEGER \<and> valuePtr option = Some p"
  have fixed: "Argparser_parseValue strtof option (Some ''12abc'') m =
       Inl (InvalidValue (shortName option) (longName option) ''expects an integer value'',
            m(p \<mapsto> IntV 12))
     \<and> Argparser_parseValue strtof option (Some ''12'') m =
         run_callback option (m(p \<mapsto> IntV 12))
     \<and> Argparser_parseValue strtof option None m =
         Inl (InvalidValue (shortName option) (longName option) ''requires a value'', m)
     \<and> Argparser_parseValue strtof option (Some []) m =
         Inl (InvalidValue (shortName option) (longName option) ''requires a value'', m)
     \<and> Argparser_parseValue strtof option (Some ''0x1F'') m =
         run_callback option (m(p \<mapsto> IntV 31))
     \<and> Argparser_parseValue strtof option (Some ''017'') m =
         run_callback option (m(p \<mapsto> IntV 15))"
    using o
    by (simp add: Argparser_parseValue_def Argparser_exitDueToError_def strtol_12abc strtol_12
        strtol_0x1F strtol_017 long_to_int_small char_at_def NUL_def)
  have general: "integer_constant base pfx ds \<and> ends_constant base ds tail \<and> blanks ws
          \<and> (sg = [] \<or> sg = ''-'' \<or> sg = ''+'')
          \<and> LONG_MIN \<le> signed_value sg (numeral_value base ds)
          \<and> signed_value sg (numeral_value base ds) \<le> LONG_MAX \<longrightarrow>
        Argparser_parseValue strtof option (Some (ws @ sg @ pfx @ ds @ tail)) m =
          (if char_at tail 0 = NUL
           then run_callback option
                  (m(p \<mapsto> IntV (long_to_int (signed_value sg (numeral_value base ds)))))
           else Inl (InvalidValue (shortName option) (longName option)
                       ''expects an integer value'',
                     m(p \<mapsto> IntV (long_to_int (signed_value sg (numeral_value base ds))))))"
  proof
    assume a: "integer_constant base pfx ds \<and> ends_constant base ds tail \<and> blanks ws
          \<and> (sg = [] \<or> sg = ''-'' \<or> sg = ''+'')
          \<and> LONG_MIN \<le> signed_value sg (numeral_value base ds)
          \<and> signed_value sg (numeral_value base ds) \<le> LONG_MAX"
    then have s: "strtol (ws @ sg @ pfx @ ds @ tail) =
        (signed_value sg (numeral_value base ds), tail, False)"
      by (intro strtol_integer_constant) simp_all
    from a have "pfx @ ds \<noteq> []"
      by (auto simp: integer_constant_def)
    then have "0 < length (ws @ sg @ pfx @ ds @ tail)" by auto
    with o s show "Argparser_parseValue strtof option (Some (ws @ sg @ pfx @ ds @ tail)) m =
          (if char_at tail 0 = NUL
           then run_callback option
                  (m(p \<mapsto> IntV (long_to_int (signed_value sg (numeral_value base ds)))))
           else Inl (InvalidValue (shortName option) (longName option)
                       ''expects an integer value'',
                     m(p \<mapsto> IntV (long_to_int (signed_value sg (numeral_value base ds))))))"
      by (simp add: Argparser_parseValue_def Argparser_exitDueToError_def del: append_assoc)
  qed
  have narrow: "- (2 ^ 31) \<le> v \<and> v < 2 ^ 31 \<longrightarrow> long_to_int v = v"
    by (simp add: long_to_int_id)
  from fixed general narrow
  show "Argparser_parseValue strtof option (Some ''12abc'') m =
       Inl (InvalidValue (shortName option) (longName option) ''expects an integer value'',
            m(p \<mapsto> IntV 12))
     \<and> Argparser_parseValue strtof option (Some ''12'') m =
         run_callback option (m(p \<mapsto> IntV 12))
     \<and> Argparser_parseValue strtof option None m =
         Inl (InvalidValue (shortName option) (longName option) ''requires a value'', m)
     \<and> Argparser_parseValue strtof option (Some []) m =
         Inl (InvalidValue (shortName option) (longName option) ''requires a value'', m)
     \<and> Argparser_parseValue strtof option (Some ''0x1F'') m =
         run_callback option (m(p \<mapsto> IntV 31))
     \<and> Argparser_parseValue strtof option (Some ''017'') m =
         run_callback option (m(p \<mapsto> IntV 15))
     \<and> (integer_constant base pfx ds \<and> ends_constant base ds tail \<and> blanks ws
          \<and> (sg = [] \<or> sg = ''-'' \<or> sg = ''+'')
          \<and> LONG_MIN \<le> signed_value sg (numeral_value base ds)
          \<and> signed_value sg (numeral_value base ds) \<le> LONG_MAX \<longrightarrow>
        Argparser_parseValue strtof option (Some (ws @ sg @ pfx @ ds @ tail)) m =
          (if char_at tail 0 = NUL
           then run_callback option
                  (m(p \<mapsto> IntV (long_to_int (signed_value sg (numeral_value base ds)))))
           else Inl (InvalidValue (shortName option) (longName option)
                       ''expects an integer value'',
                     m(p \<mapsto> IntV (long_to_int (signed_value sg (numeral_value base ds)))))))
     \<and> (- (2 ^ 31) \<le> v \<and> v < 2 ^ 31 \<longrightarrow> long_to_int v = v)"
    by blast
qed

theorem integer_conversion_witness:
  "Argparser_parseValue strtof_unit
       (ARGPARSER_OPT_INT (CHR ''n'') (Some ''number'') (Some 7) None) (Some ''12abc'') no_cells =
     Inl (InvalidValue (CHR ''n'') (Some ''number'') ''expects an integer value'',
          no_cells(7 \<mapsto> IntV 12))
   \<and> Argparser_parseValue strtof_unit
       (ARGPARSER_OPT_INT (CHR ''n'') (Some ''number'') (Some 7) None) (Some ''12'') no_cells =
     Inr (no_cells(7 \<mapsto> IntV 12))
   \<and> Argparser_parseValue strtof_unit
       (ARGPARSER_OPT_INT (CHR ''n'') (Some ''number'') (Some 7) None) None no_cells =
     Inl (InvalidValue (CHR ''n'') (Some ''number'') ''requires a value'', no_cells)
   \<and> Argparser_parseValue strtof_unit
       (ARGPARSER_OPT_INT (CHR ''n'') (Some ''number'') (Some 7) None) (Some []) no_cells =
     Inl (InvalidValue (CHR ''n'') (Some ''number'') ''requires a value'', no_cells)
   \<and> Argparser_parseValue strtof_unit
       (ARGPARSER_OPT_INT (CHR ''n'') (Some ''number'') (Some 7) None) (Some ''0x1F'') no_cells =
     Inr (no_cells(7 \<mapsto> IntV 31))
   \<and> Argparser_parseValue strtof_unit
       (ARGPARSER_OPT_INT (CHR ''n'') (Some ''number'') (Some 7) None) (Some ''017'') no_cells =
     Inr (no_cells(7 \<mapsto> IntV 15))
   \<and> Argparser_parseValue strtof_unit
       (ARGPARSER_OPT_INT (CHR ''n'') (Some ''number'') (Some 7) None) (Some '' -0Xfe'') no_cells =
     Inr (no_cells(7 \<mapsto> IntV (- 254)))
   \<and> Argparser_parseValue strtof_unit
       (ARGPARSER_OPT_INT (CHR ''n'') (Some ''number'') (Some 7) None) (Some ''0179'') no_cells =
     Inl (InvalidValue (CHR ''n'') (Some ''number'') ''expects an integer value'',
          no_cells(7 \<mapsto> IntV 15))"
proof -
  let ?opt = "ARGPARSER_OPT_INT (CHR ''n'') (Some ''number'') (Some 7) None :: unit ArgparserOption"
  have o: "type ?opt = ARGPARSER_TYPE_INTEGER \<and> valuePtr ?opt = Some 7"
    by (simp add: ARGPARSER_OPT_INT_def)
  have v1: "numeral_value 16 ''fe'' = 254" and v2: "numeral_value 8 ''17'' = 15"
    by (simp_all add: numeral_value_def digit_of_def)
  have h1: "integer_constant 16 ''0X'' ''fe'' \<and> ends_constant 16 ''fe'' [] \<and> blanks '' ''
      \<and> (''-'' = [] \<or> ''-'' = ''-'' \<or> ''-'' = ''+'')
      \<and> LONG_MIN \<le> signed_value ''-'' (numeral_value 16 ''fe'')
      \<and> signed_value ''-'' (numeral_value 16 ''fe'') \<le> LONG_MAX"
    by (simp add: v1 integer_constant_def ends_constant_def blanks_def digit_below_def
        digit_of_def char_at_def NUL_def signed_value_def LONG_MIN_def LONG_MAX_def)
  have h2: "integer_constant 8 ''0'' ''17'' \<and> ends_constant 8 ''17'' ''9'' \<and> blanks []
      \<and> ([] = [] \<or> [] = ''-'' \<or> [] = ''+'')
      \<and> LONG_MIN \<le> signed_value [] (numeral_value 8 ''17'')
      \<and> signed_value [] (numeral_value 8 ''17'') \<le> LONG_MAX"
    by (simp add: v2 integer_constant_def ends_constant_def blanks_def digit_below_def
        digit_of_def char_at_def NUL_def signed_value_def LONG_MIN_def LONG_MAX_def)
  have h3: "- (2 ^ 31) \<le> (- 254 :: int) \<and> (- 254 :: int) < 2 ^ 31"
    by simp
  note t1 = integer_conversion [where option = ?opt and p = 7 and strtof = strtof_unit
      and m = no_cells and base = 16 and pfx = "''0X''" and ds = "''fe''" and tail = "[]"
      and ws = "'' ''" and sg = "''-''" and v = "- 254", rule_format, OF o]
  note t2 = integer_conversion [where option = ?opt and p = 7 and strtof = strtof_unit
      and m = no_cells and base = 8 and pfx = "''0''" and ds = "''17''" and tail = "''9''"
      and ws = "[]" and sg = "[]" and v = 15, rule_format, OF o]
  show ?thesis
    using h1 h2 h3 t1 t2
    by (simp add: v1 v2 ARGPARSER_OPT_INT_def run_callback_def signed_value_def char_at_def
        NUL_def)
qed

text \<open>
  C9. An option whose destination is absent is never converted: whatever the attached text
  and the type, the value converter only runs the callback, if there is one. So
  \<open>--help=banana\<close> on the help option of the macro \<open>ARGPARSER_OPT_HELP\<close> ends with
  the help exit and no conversion error.
\<close>

theorem no_destination_no_conversion:
  "(valuePtr option = None \<longrightarrow>
      Argparser_parseValue strtof option optvalue m =
        (case callback option of None \<Rightarrow> Inr m | Some f \<Rightarrow> f m))
   \<and> Argparser_parse strtof (Argparser_init [ARGPARSER_OPT_HELP, ARGPARSER_OPT_END]) 2
        [Some prog, Some ''--help=banana''] m = Inl (HelpRequested, m)"
  by (simp add: Argparser_parseValue_def run_callback_def Argparser_parse_def Argparser_init_def
      parse_loop.simps arg_at_def char_at_def NUL_def Argparser_parseLongOption_def
      ARGPARSER_OPT_HELP_def ARGPARSER_OPT_END_def ARGPARSER_OPT_BOOL_CALLBACK_def
      strncmp_equal_def Argparser_exitForHelp_def)

theorem no_destination_no_conversion_witness:
  "Argparser_parseValue strtof_unit ARGPARSER_OPT_HELP (Some ''banana'') no_cells =
     Inl (HelpRequested, no_cells)
   \<and> Argparser_parse strtof_unit (Argparser_init [ARGPARSER_OPT_HELP, ARGPARSER_OPT_END]) 2
        [Some ''bud'', Some ''--help=banana''] no_cells = Inl (HelpRequested, no_cells)"
  using no_destination_no_conversion [of ARGPARSER_OPT_HELP strtof_unit "Some ''banana''" no_cells
      "''bud''"]
  by (simp add: ARGPARSER_OPT_HELP_def ARGPARSER_OPT_BOOL_CALLBACK_def Argparser_exitForHelp_def)




subsection \<open>Evaluation of concrete calls\<close>

lemmas eval_parse =
  residual_def Argparser_parse_def Argparser_init_def parse_loop.simps arg_at_def char_at_def
  NUL_def Argparser_parseLongOption_def Argparser_parseShortOption_def following_value_def
  Argparser_parseValue_def run_callback_def Argparser_exitDueToError_def
  Argparser_exitDueToUnknownOption_def strncmp_equal_def memmove_def
  ARGPARSER_OPT_BOOL_def ARGPARSER_OPT_END_def ARGPARSER_OPT_HELP_def
  ARGPARSER_OPT_BOOL_CALLBACK_def Argparser_exitForHelp_def

subsection \<open>The compound form of the short-option matcher\<close>

lemma terminated_Cons:
  "terminated (opt # opts) = (type opt = ARGPARSER_TYPE_END \<or> terminated opts)"
  by (auto simp: terminated_def)

lemma compound_scan_dispatch:
  "terminated opts \<Longrightarrow>
     compound_scan strtof opts c m found =
       (case valueless_dispatch strtof (filter (\<lambda>opt. shortName opt = c) (table_entries opts)) m of
          Inl e \<Rightarrow> Inl e
        | Inr m' \<Rightarrow>
            Inr (m', found \<or> filter (\<lambda>opt. shortName opt = c) (table_entries opts) \<noteq> []))"
proof (induction opts arbitrary: m found)
  case Nil
  then show ?case by (simp add: terminated_def)
next
  case (Cons opt opts)
  show ?case
  proof (cases "type opt = ARGPARSER_TYPE_END")
    case True
    then show ?thesis by (simp add: table_entries_def)
  next
    case False
    with Cons.prems have t: "terminated opts" by (simp add: terminated_Cons)
    have e: "table_entries (opt # opts) = opt # table_entries opts"
      using False by (simp add: table_entries_def)
    show ?thesis
      using False by (simp add: e Cons.IH [OF t] split: sum.splits)
  qed
qed

lemma short_compound_flags:
  assumes "terminated opts" and "arg_at vec (argv self) = Some arg"
  shows "short_compound strtof opts self vec cs m found =
           (case compound_flags strtof opts arg cs m of
              Inl e \<Rightarrow> Inl e
            | Inr m' \<Rightarrow> Inr (m', found \<or> cs \<noteq> []))"
proof (induction cs arbitrary: m found)
  case Nil
  then show ?case by simp
next
  case (Cons c cs)
  show ?case
    using assms(2)
    by (simp add: compound_scan_dispatch [OF assms(1)] Cons.IH Argparser_exitDueToUnknownOption_def
        split: sum.splits)
qed

lemma parseShortOption_compound:
  assumes "terminated opts" and "arg_at vec (argv self) = Some arg" and "2 < length arg"
  shows "Argparser_parseShortOption strtof self opts vec m =
           (case compound_flags strtof opts arg (tl arg) m of
              Inl e \<Rightarrow> Inl e
            | Inr m' \<Rightarrow> Inr (self, m'))"
proof -
  from assms(3) have "tl arg \<noteq> []" and "arg \<noteq> []" by (cases arg; auto)+
  then show ?thesis
    using assms
    by (auto simp add: Argparser_parseShortOption_def short_compound_flags [OF assms(1,2)]
        split: sum.splits)
qed

lemma compound_flags_append:
  "compound_flags strtof opts arg (xs @ ys) m =
     (case compound_flags strtof opts arg xs m of
        Inl e \<Rightarrow> Inl e
      | Inr m' \<Rightarrow> compound_flags strtof opts arg ys m')"
  by (induction xs arbitrary: m) (auto split: sum.splits)

lemma compound_flags_unmatched:
  "\<forall>opt \<in> set (table_entries opts). shortName opt \<noteq> c \<Longrightarrow>
     compound_flags strtof opts arg (c # cs) m = Inl (UnknownOption arg, m)"
  by (simp add: filter_empty_conv)

lemma terminated_bud_options: "terminated bud_options"
  by (simp add: terminated_def bud_options_def ARGPARSER_OPT_END_def)

lemma table_entries_bud_options:
  "table_entries (bud_options :: 'f ArgparserOption list) =
     [ARGPARSER_OPT_HELP,
      ARGPARSER_OPT_BOOL (CHR ''c'') (Some ''color'') (Some colorOutput)
        (Some ''display with colors''),
      ARGPARSER_OPT_BOOL (CHR ''i'') (Some ''inverse'') (Some inverse_flag)
        (Some ''inverse the sign of all input''),
      ARGPARSER_OPT_BOOL NUL (Some ''nochart'') (Some nochart) (Some ''hide the chart''),
      ARGPARSER_OPT_BOOL NUL (Some ''noheader'') (Some noheader) (Some ''hide the header''),
      ARGPARSER_OPT_BOOL NUL (Some ''nototal'') (Some nototal) (Some ''hide the total'')]"
  by (simp add: table_entries_def bud_options_def ARGPARSER_OPT_END_def ARGPARSER_OPT_HELP_def
      ARGPARSER_OPT_BOOL_def ARGPARSER_OPT_BOOL_CALLBACK_def)

text \<open>
  C6. A short-option token longer than two characters is handled as the compound form of
  the specification: every character after the leading \<open>-\<close> is dispatched with no
  value to the entries of that short name, the handle is returned as it was (no further
  token is consumed), and a character with no entry ends the process with UnknownOption
  whatever characters follow it. With BOOLEAN entries \<open>a\<close> and \<open>b\<close>, \<open>-ab\<close>
  sets both destinations and leaves the next token as the one positional.
\<close>

theorem compound_short_flags:
  "(terminated opts \<and> arg_at vec (argv self) = Some arg \<and> 2 < length arg \<longrightarrow>
      Argparser_parseShortOption strtof self opts vec m =
        (case compound_flags strtof opts arg (tl arg) m of
           Inl e \<Rightarrow> Inl e
         | Inr m' \<Rightarrow> Inr (self, m')))
   \<and> (terminated opts \<and> arg_at vec (argv self) = Some (d # pre @ c # post) \<and> pre @ post \<noteq> []
        \<and> (\<forall>opt \<in> set (table_entries opts). shortName opt \<noteq> c) \<longrightarrow>
      Argparser_parseShortOption strtof self opts vec m =
        (case compound_flags strtof opts (d # pre @ c # post) pre m of
           Inl e \<Rightarrow> Inl e
         | Inr m' \<Rightarrow> Inl (UnknownOption (d # pre @ c # post), m')))
   \<and> residual (Argparser_parse strtof
        (Argparser_init
           [ARGPARSER_OPT_BOOL (CHR ''a'') None (Some pa) None,
            ARGPARSER_OPT_BOOL (CHR ''b'') None (Some pb) None, ARGPARSER_OPT_END])
        3 [Some prog, Some ''-ab'', Some ''file.txt''] m) =
       Inr ([Some ''file.txt'', None], m(pa \<mapsto> BoolV True, pb \<mapsto> BoolV True))"
proof (intro conjI impI)
  assume "terminated opts \<and> arg_at vec (argv self) = Some arg \<and> 2 < length arg"
  then show "Argparser_parseShortOption strtof self opts vec m =
      (case compound_flags strtof opts arg (tl arg) m of
         Inl e \<Rightarrow> Inl e
       | Inr m' \<Rightarrow> Inr (self, m'))"
    by (simp add: parseShortOption_compound)
next
  let ?arg = "d # pre @ c # post"
  assume a: "terminated opts \<and> arg_at vec (argv self) = Some ?arg \<and> pre @ post \<noteq> []
        \<and> (\<forall>opt \<in> set (table_entries opts). shortName opt \<noteq> c)"
  then have len: "2 < length ?arg"
    by (cases pre; cases post; simp)
  have "compound_flags strtof opts ?arg (tl ?arg) m =
          (case compound_flags strtof opts ?arg pre m of
             Inl e \<Rightarrow> Inl e
           | Inr m' \<Rightarrow> Inl (UnknownOption ?arg, m'))"
    using a by (simp add: compound_flags_append filter_empty_conv split: sum.splits)
  then show "Argparser_parseShortOption strtof self opts vec m =
      (case compound_flags strtof opts ?arg pre m of
         Inl e \<Rightarrow> Inl e
       | Inr m' \<Rightarrow> Inl (UnknownOption ?arg, m'))"
    using a len by (simp add: parseShortOption_compound split: sum.splits)
next
  show "residual (Argparser_parse strtof
        (Argparser_init
           [ARGPARSER_OPT_BOOL (CHR ''a'') None (Some pa) None,
            ARGPARSER_OPT_BOOL (CHR ''b'') None (Some pb) None, ARGPARSER_OPT_END])
        3 [Some prog, Some ''-ab'', Some ''file.txt''] m) =
       Inr ([Some ''file.txt'', None], m(pa \<mapsto> BoolV True, pb \<mapsto> BoolV True))"
    by (simp add: eval_parse)
qed

theorem compound_short_flags_witness:
  "Argparser_parseShortOption strtof_unit ((Argparser_init bud_options)\<lparr>argc := 1, argv := 1\<rparr>)
       bud_options [Some ''bud'', Some ''-ci''] no_cells =
     Inr ((Argparser_init bud_options)\<lparr>argc := 1, argv := 1\<rparr>,
          no_cells(colorOutput \<mapsto> BoolV True, inverse_flag \<mapsto> BoolV True))
   \<and> Argparser_parseShortOption strtof_unit ((Argparser_init bud_options)\<lparr>argc := 1, argv := 1\<rparr>)
       bud_options [Some ''bud'', Some ''-cxi''] no_cells =
     Inl (UnknownOption ''-cxi'', no_cells(colorOutput \<mapsto> BoolV True))"
proof -
  let ?self = "(Argparser_init bud_options)\<lparr>argc := 1, argv := 1\<rparr> :: unit Argparser"
  have h1: "terminated (bud_options :: unit ArgparserOption list)
      \<and> arg_at [Some ''bud'', Some ''-ci''] (argv ?self) = Some ''-ci'' \<and> 2 < length ''-ci''"
    by (simp add: terminated_bud_options arg_at_def)
  have h2: "terminated (bud_options :: unit ArgparserOption list)
      \<and> arg_at [Some ''bud'', Some ''-cxi''] (argv ?self) = Some (CHR ''-'' # ''c'' @ CHR ''x'' # ''i'')
      \<and> ''c'' @ ''i'' \<noteq> []
      \<and> (\<forall>opt \<in> set (table_entries (bud_options :: unit ArgparserOption list)).
            shortName opt \<noteq> CHR ''x'')"
    by (simp add: terminated_bud_options arg_at_def table_entries_bud_options
        ARGPARSER_OPT_HELP_def ARGPARSER_OPT_BOOL_def ARGPARSER_OPT_BOOL_CALLBACK_def NUL_def)
  note t1 = compound_short_flags [where opts = bud_options and vec = "[Some ''bud'', Some ''-ci'']"
      and self = ?self and arg = "''-ci''" and strtof = strtof_unit and m = no_cells,
      THEN conjunct1, rule_format, OF h1]
  note t2 = compound_short_flags [where opts = bud_options and vec = "[Some ''bud'', Some ''-cxi'']"
      and self = ?self and strtof = strtof_unit and m = no_cells and d = "CHR ''-''"
      and pre = "''c''" and c = "CHR ''x''" and post = "''i''",
      THEN conjunct2, THEN conjunct1, rule_format, OF h2]
  show ?thesis
    using t1 t2
    by (simp add: table_entries_bud_options ARGPARSER_OPT_HELP_def ARGPARSER_OPT_BOOL_def
        ARGPARSER_OPT_BOOL_CALLBACK_def NUL_def Argparser_parseValue_def run_callback_def)
qed

subsection \<open>Claims about single tokens\<close>

text \<open>
  C1, as the code has it. For the BOOLEAN option \<open>-c\<close>, \<open>--color\<close> with a
  destination: the tokens \<open>-c\<close>, \<open>--color\<close>, \<open>--color=1\<close> and \<open>-c\<close> followed by
  \<open>1\<close> leave the destination true; \<open>-c\<close> followed by \<open>0\<close> and \<open>--color=0\<close>
  leave it false; \<open>--color=maybe\<close> ends with InvalidValue. The token \<open>-c=1\<close> is a
  compound token: its first character sets the destination, its second character
  \<open>=\<close> has no entry, and the process ends with UnknownOption.
\<close>

theorem boolean_color_option:
  "residual (Argparser_parse strtof (Argparser_init (color_table p text)) 2
       [Some prog, Some ''-c''] m) = Inr ([None], m(p \<mapsto> BoolV True))
   \<and> residual (Argparser_parse strtof (Argparser_init (color_table p text)) 2
       [Some prog, Some ''--color''] m) = Inr ([None], m(p \<mapsto> BoolV True))
   \<and> residual (Argparser_parse strtof (Argparser_init (color_table p text)) 2
       [Some prog, Some ''--color=1''] m) = Inr ([None], m(p \<mapsto> BoolV True))
   \<and> residual (Argparser_parse strtof (Argparser_init (color_table p text)) 3
       [Some prog, Some ''-c'', Some ''1''] m) = Inr ([None], m(p \<mapsto> BoolV True))
   \<and> residual (Argparser_parse strtof (Argparser_init (color_table p text)) 3
       [Some prog, Some ''-c'', Some ''0''] m) = Inr ([None], m(p \<mapsto> BoolV False))
   \<and> residual (Argparser_parse strtof (Argparser_init (color_table p text)) 2
       [Some prog, Some ''--color=0''] m) = Inr ([None], m(p \<mapsto> BoolV False))
   \<and> residual (Argparser_parse strtof (Argparser_init (color_table p text)) 2
       [Some prog, Some ''--color=maybe''] m) =
         Inl (InvalidValue (CHR ''c'') (Some ''color'') ''expects no value, 0, or 1'', m)
   \<and> residual (Argparser_parse strtof (Argparser_init (color_table p text)) 2
       [Some prog, Some ''-c=1''] m) = Inl (UnknownOption ''-c=1'', m(p \<mapsto> BoolV True))"
  by (simp add: eval_parse color_table_def)

text \<open>C1 as stated fails for \<open>-c=1\<close>: the call does not return.\<close>

theorem short_equals_counterexample:
  "residual (Argparser_parse strtof_unit (Argparser_init (color_table colorOutput None)) 2
       [Some ''bud'', Some ''-c=1''] no_cells) =
     Inl (UnknownOption ''-c=1'', no_cells(colorOutput \<mapsto> BoolV True))"
  by (simp add: eval_parse color_table_def)

text \<open>
  C10. The compound form is not atomic. When a character of the token has no entry, the
  process ends with UnknownOption in the memory that the earlier characters left: their
  destinations are written and their callbacks have run. With an entry \<open>a\<close> that has
  a destination and a callback and no entry \<open>b\<close>, the token \<open>-ab\<close> ends the
  process in the memory that the callback returned for the written destination.
\<close>

theorem compound_error_after_effects:
  "(terminated opts \<and> arg_at vec (argv self) = Some (d # pre @ c # post) \<and> pre @ post \<noteq> []
      \<and> (\<forall>opt \<in> set (table_entries opts). shortName opt \<noteq> c)
      \<and> compound_flags strtof opts (d # pre @ c # post) pre m = Inr m' \<longrightarrow>
    Argparser_parseShortOption strtof self opts vec m =
      Inl (UnknownOption (d # pre @ c # post), m'))
   \<and> (f (m(pa \<mapsto> BoolV True)) = Inr m1 \<longrightarrow>
        Argparser_parse strtof
          (Argparser_init
             [ARGPARSER_OPT_BOOL_CALLBACK (CHR ''a'') None (Some pa) None f, ARGPARSER_OPT_END])
          2 [Some prog, Some ''-ab''] m =
        Inl (UnknownOption ''-ab'', m1))"
proof (intro conjI impI)
  let ?arg = "d # pre @ c # post"
  assume a: "terminated opts \<and> arg_at vec (argv self) = Some ?arg \<and> pre @ post \<noteq> []
      \<and> (\<forall>opt \<in> set (table_entries opts). shortName opt \<noteq> c)
      \<and> compound_flags strtof opts ?arg pre m = Inr m'"
  then have len: "2 < length ?arg"
    by (cases pre; cases post; simp)
  have "compound_flags strtof opts ?arg (tl ?arg) m = Inl (UnknownOption ?arg, m')"
    using a by (simp add: compound_flags_append filter_empty_conv)
  then show "Argparser_parseShortOption strtof self opts vec m = Inl (UnknownOption ?arg, m')"
    using a len by (simp add: parseShortOption_compound)
next
  assume "f (m(pa \<mapsto> BoolV True)) = Inr m1"
  then show "Argparser_parse strtof
          (Argparser_init
             [ARGPARSER_OPT_BOOL_CALLBACK (CHR ''a'') None (Some pa) None f, ARGPARSER_OPT_END])
          2 [Some prog, Some ''-ab''] m =
        Inl (UnknownOption ''-ab'', m1)"
    by (simp add: eval_parse)
qed

theorem compound_error_after_effects_witness:
  "Argparser_parseShortOption strtof_unit ((Argparser_init bud_options)\<lparr>argc := 1, argv := 1\<rparr>)
       bud_options [Some ''bud'', Some ''-icx''] no_cells =
     Inl (UnknownOption ''-icx'',
          no_cells(inverse_flag \<mapsto> BoolV True, colorOutput \<mapsto> BoolV True))
   \<and> Argparser_parse strtof_unit
       (Argparser_init
          [ARGPARSER_OPT_BOOL_CALLBACK (CHR ''a'') None (Some 0) None (flag_callback 1),
           ARGPARSER_OPT_END])
       2 [Some ''prog'', Some ''-ab''] no_cells =
     Inl (UnknownOption ''-ab'', no_cells(0 \<mapsto> BoolV True, 1 \<mapsto> BoolV True))"
proof -
  let ?self = "(Argparser_init bud_options)\<lparr>argc := 1, argv := 1\<rparr> :: unit Argparser"
  have h1: "terminated (bud_options :: unit ArgparserOption list)
      \<and> arg_at [Some ''bud'', Some ''-icx''] (argv ?self) = Some (CHR ''-'' # ''ic'' @ CHR ''x'' # [])
      \<and> ''ic'' @ [] \<noteq> []
      \<and> (\<forall>opt \<in> set (table_entries (bud_options :: unit ArgparserOption list)).
            shortName opt \<noteq> CHR ''x'')
      \<and> compound_flags strtof_unit bud_options (CHR ''-'' # ''ic'' @ CHR ''x'' # []) ''ic'' no_cells =
          Inr (no_cells(inverse_flag \<mapsto> BoolV True, colorOutput \<mapsto> BoolV True))"
    by (simp add: terminated_bud_options arg_at_def table_entries_bud_options
        ARGPARSER_OPT_HELP_def ARGPARSER_OPT_BOOL_def ARGPARSER_OPT_BOOL_CALLBACK_def NUL_def
        Argparser_parseValue_def run_callback_def)
  have h2: "flag_callback 1 ((no_cells :: unit memory)(0 \<mapsto> BoolV True)) =
      Inr (no_cells(0 \<mapsto> BoolV True, 1 \<mapsto> BoolV True))"
    by (simp add: flag_callback_def)
  note t1 = compound_error_after_effects [where opts = bud_options
      and vec = "[Some ''bud'', Some ''-icx'']" and self = ?self and strtof = strtof_unit
      and m = no_cells and d = "CHR ''-''" and pre = "''ic''" and c = "CHR ''x''" and post = "[]",
      THEN conjunct1, rule_format, OF h1]
  note t2 = compound_error_after_effects [where f = "flag_callback 1" and m = no_cells
      and pa = 0 and strtof = strtof_unit and prog = "''prog''",
      THEN conjunct2, rule_format, OF h2]
  show ?thesis
    using t1 t2 by simp
qed

subsection \<open>The long-option matcher\<close>

text \<open>
  What the scan does at one candidate whose long name starts the text after \<open>--\<close>:
  with \<open>=\<close> next, the text after it is the value; otherwise a BOOLEAN candidate is
  dispatched with no value, whatever follows the name, and a candidate of another type is
  passed over.
\<close>

lemma long_scan_candidate:
  assumes "type opt \<noteq> ARGPARSER_TYPE_END" and "longName opt = Some name" and "name \<noteq> []"
    and "arg = ''--'' @ name @ rest"
  shows "long_scan strtof (opt # opts) arg m found =
     (if char_at rest 0 = CHR ''='' then
        (case Argparser_parseValue strtof opt (Some (tl rest)) m of
           Inl e \<Rightarrow> Inl e
         | Inr m' \<Rightarrow> long_scan strtof opts arg m' True)
      else if type opt = ARGPARSER_TYPE_BOOLEAN then
        (case Argparser_parseValue strtof opt None m of
           Inl e \<Rightarrow> Inl e
         | Inr m' \<Rightarrow> long_scan strtof opts arg m' True)
      else long_scan strtof opts arg m found)"
proof -
  have "length arg \<ge> 2" and "take (length name) (drop 2 arg) = name"
    and "drop (2 + length name) arg = rest" and "drop (2 + length name + 1) arg = tl rest"
    using assms(4) by (simp_all add: drop_Suc drop_tl)
  then show ?thesis
    using assms(1-3) by (simp add: strncmp_equal_def)
qed

text \<open>
  C2 at the token \<open>--colorful\<close>: the name \<open>color\<close> is followed by \<open>ful\<close>, which
  is neither empty nor starts with \<open>=\<close>, and the BOOLEAN option is dispatched with no
  value all the same; the destination is set and the call returns with no positional.
\<close>

theorem long_name_with_suffix:
  "residual (Argparser_parse strtof (Argparser_init (color_table p text)) 2
       [Some prog, Some ''--colorful''] m) = Inr ([None], m(p \<mapsto> BoolV True))"
  by (simp add: eval_parse color_table_def)

subsection \<open>The cursor of the short-option matcher\<close>

lemma following_value_Some:
  "following_value self vec = Inr (Some v) \<Longrightarrow>
     1 < argc self \<and> argv self + 1 < length vec \<and> vec ! (argv self + 1) = Some v
     \<and> char_at v 0 \<noteq> CHR ''-''"
  by (auto simp: following_value_def split: if_splits option.splits)

text \<open>
  What the two-character form does to the handle: it moves the cursor over \<open>d\<close> value
  tokens, none of which starts with \<open>-\<close>, and leaves one token at least.
\<close>

lemma short_single_cursor:
  assumes "short_single strtof opts vec self m found = Inr (self', m', found')"
  shows "\<exists>d. self' = self\<lparr>argv := argv self + d, argc := argc self - int d\<rparr>
           \<and> (0 < d \<longrightarrow> int d < argc self)
           \<and> (\<forall>k. argv self < k \<and> k \<le> argv self + d \<longrightarrow>
                 k < length vec \<and> (\<exists>v. vec ! k = Some v \<and> char_at v 0 \<noteq> CHR ''-''))"
  using assms
proof (induction opts arbitrary: self m found)
  case Nil
  then show ?case by simp
next
  case (Cons opt opts)
  have same: "\<And>m1 f1. short_single strtof opts vec self m1 f1 = Inr (self', m', found') \<Longrightarrow> ?case"
    by (rule Cons.IH)
  have moved: ?case
    if fv: "following_value self vec = Inr (Some v)"
      and r: "short_single strtof opts vec (self\<lparr>argv := argv self + 1, argc := argc self - 1\<rparr>)
                m1 True = Inr (self', m', found')" for v m1
  proof -
    from Cons.IH [OF r] obtain d where
      d: "self' = self\<lparr>argv := argv self + 1 + d, argc := argc self - 1 - int d\<rparr>"
      and lt: "0 < d \<longrightarrow> int d < argc self - 1"
      and vs: "\<forall>k. argv self + 1 < k \<and> k \<le> argv self + 1 + d \<longrightarrow>
                 k < length vec \<and> (\<exists>v. vec ! k = Some v \<and> char_at v 0 \<noteq> CHR ''-'')"
      by auto
    from following_value_Some [OF fv] have
      one: "1 < argc self" "argv self + 1 < length vec" "vec ! (argv self + 1) = Some v"
        "char_at v 0 \<noteq> CHR ''-''"
      by simp_all
    have "\<forall>k. argv self < k \<and> k \<le> argv self + Suc d \<longrightarrow>
            k < length vec \<and> (\<exists>v. vec ! k = Some v \<and> char_at v 0 \<noteq> CHR ''-'')"
    proof (intro allI impI)
      fix k
      assume k: "argv self < k \<and> k \<le> argv self + Suc d"
      show "k < length vec \<and> (\<exists>v. vec ! k = Some v \<and> char_at v 0 \<noteq> CHR ''-'')"
      proof (cases "k = argv self + 1")
        case True
        with one show ?thesis by simp
      next
        case False
        with k vs show ?thesis by simp
      qed
    qed
    moreover have "self' = self\<lparr>argv := argv self + Suc d, argc := argc self - int (Suc d)\<rparr>"
      using d by simp
    moreover have "0 < Suc d \<longrightarrow> int (Suc d) < argc self"
      using lt one(1) by (cases d) auto
    ultimately show ?thesis by blast
  qed
  have stay: ?case if "self' = self"
    using that by (intro exI [of _ 0]) auto
  show ?case
    using Cons.prems same moved stay
    by (auto split: if_splits option.splits sum.splits simp del: short_single.simps(2)
        simp add: short_single.simps(2) [of strtof opt opts vec self m found])
qed

lemma parseShortOption_cursor:
  assumes "Argparser_parseShortOption strtof self opts vec m = Inr (self', m')"
  shows "\<exists>d. self' = self\<lparr>argv := argv self + d, argc := argc self - int d\<rparr>
           \<and> (0 < d \<longrightarrow> int d < argc self)
           \<and> (0 < d \<longrightarrow> (\<exists>a. arg_at vec (argv self) = Some a \<and> length a = 2))
           \<and> (\<forall>k. argv self < k \<and> k \<le> argv self + d \<longrightarrow>
                 k < length vec \<and> (\<exists>v. vec ! k = Some v \<and> char_at v 0 \<noteq> CHR ''-''))"
proof (cases "arg_at vec (argv self)")
  case None
  with assms show ?thesis
    by (simp add: Argparser_parseShortOption_def)
next
  case (Some a)
  have stay: ?thesis if "self' = self"
    using that by (intro exI [of _ 0]) auto
  show ?thesis
  proof (cases "length a = 2")
    case True
    with assms Some obtain found where
      "short_single strtof opts vec self m False = Inr (self', m', found)"
      by (auto simp: Argparser_parseShortOption_def Argparser_exitDueToUnknownOption_def
          split: sum.splits if_splits option.splits)
    from short_single_cursor [OF this] Some True show ?thesis
      by blast
  next
    case False
    with assms Some have "self' = self"
      by (auto simp: Argparser_parseShortOption_def Argparser_exitDueToUnknownOption_def
          split: sum.splits if_splits option.splits)
    then show ?thesis by (rule stay)
  qed
qed

subsection \<open>The compaction invariant of the parse loop\<close>

lemma arg_at_Some: "arg_at vec i = Some a \<Longrightarrow> i < length vec \<and> vec ! i = Some a"
  by (simp add: arg_at_def split: if_splits)

lemma compactedD:
  assumes "compacted A self vec self' vec' qs"
  shows "loop_inv A self' vec'"
    and "argv self \<le> argv self'"
    and "length vec' = length vec"
    and "stopAtNonOption self' = stopAtNonOption self"
    and "drop (argv self') vec' = drop (argv self') vec"
    and "take (nat (cpidx self')) vec' = take (nat (cpidx self)) vec @ map Some qs"
    and "subseq (map Some qs) (take (argv self' - argv self) (drop (argv self) vec))"
    and "list_all plain_token qs"
    and "stopAtNonOption self \<longrightarrow> qs = []"
    and "argv self' = A
          \<or> (argv self < argv self' \<and> (\<exists>t. vec ! (argv self' - 1) = Some t \<and> terminator_token t))
          \<or> (stopAtNonOption self \<and> argv self' < A
              \<and> (\<exists>t. vec ! argv self' = Some t \<and> plain_token t))"
    and "\<forall>k t. argv self \<le> k \<and> k < argv self' \<and> vec ! k = Some t \<and> terminator_token t
            \<longrightarrow> k + 1 = argv self'"
    and "\<forall>k t. stopAtNonOption self \<and> argv self \<le> k \<and> k < argv self' \<and> vec ! k = Some t
              \<and> plain_token t
            \<longrightarrow> argv self < k
                \<and> (\<exists>u. vec ! (k - 1) = Some u \<and> (length u = 2 \<or> char_at u 0 \<noteq> CHR ''-''))"
    and "\<not> stopAtNonOption self
          \<and> (\<forall>k. argv self \<le> k \<and> k < argv self' \<longrightarrow> (\<exists>t. vec ! k = Some t \<and> plain_token t))
        \<longrightarrow> map Some qs = take (argv self' - argv self) (drop (argv self) vec)"
  using assms unfolding compacted_def by blast+

lemma compactedI:
  assumes "loop_inv A self' vec'"
    and "argv self \<le> argv self'"
    and "length vec' = length vec"
    and "stopAtNonOption self' = stopAtNonOption self"
    and "drop (argv self') vec' = drop (argv self') vec"
    and "take (nat (cpidx self')) vec' = take (nat (cpidx self)) vec @ map Some qs"
    and "subseq (map Some qs) (take (argv self' - argv self) (drop (argv self) vec))"
    and "list_all plain_token qs"
    and "stopAtNonOption self \<longrightarrow> qs = []"
    and "argv self' = A
          \<or> (argv self < argv self' \<and> (\<exists>t. vec ! (argv self' - 1) = Some t \<and> terminator_token t))
          \<or> (stopAtNonOption self \<and> argv self' < A
              \<and> (\<exists>t. vec ! argv self' = Some t \<and> plain_token t))"
    and "\<forall>k t. argv self \<le> k \<and> k < argv self' \<and> vec ! k = Some t \<and> terminator_token t
            \<longrightarrow> k + 1 = argv self'"
    and "\<forall>k t. stopAtNonOption self \<and> argv self \<le> k \<and> k < argv self' \<and> vec ! k = Some t
              \<and> plain_token t
            \<longrightarrow> argv self < k
                \<and> (\<exists>u. vec ! (k - 1) = Some u \<and> (length u = 2 \<or> char_at u 0 \<noteq> CHR ''-''))"
    and "\<not> stopAtNonOption self
          \<and> (\<forall>k. argv self \<le> k \<and> k < argv self' \<longrightarrow> (\<exists>t. vec ! k = Some t \<and> plain_token t))
        \<longrightarrow> map Some qs = take (argv self' - argv self) (drop (argv self) vec)"
  shows "compacted A self vec self' vec' qs"
  using assms unfolding compacted_def by blast

lemma compacted_here:
  assumes "loop_inv A self vec"
    and "argv self = A \<or> (stopAtNonOption self \<and> argv self < A
           \<and> (\<exists>t. vec ! argv self = Some t \<and> plain_token t))"
  shows "compacted A self vec self vec []"
  using assms by (intro compactedI) auto

lemma compacted_terminator:
  assumes "loop_inv A self vec" and "argc self \<noteq> 0" and "arg_at vec (argv self) = Some arg"
    and "terminator_token arg"
  shows "compacted A self vec (self\<lparr>argc := argc self - 1, argv := argv self + 1\<rparr>) vec []"
proof (rule compactedI)
  let ?self' = "self\<lparr>argc := argc self - 1, argv := argv self + 1\<rparr>"
  from assms(3) have il: "argv self < length vec" and vi: "vec ! argv self = Some arg"
    by (simp_all add: arg_at_Some)
  from assms(1,2) have iA: "argv self < A"
    by (auto simp: loop_inv_def)
  from assms(4) have np: "\<not> plain_token arg"
    by (simp add: terminator_token_def)
  show "loop_inv A ?self' vec"
    using assms(1) iA by (auto simp: loop_inv_def)
  show "argv self \<le> argv ?self'" by simp
  show "length vec = length vec" ..
  show "stopAtNonOption ?self' = stopAtNonOption self" by simp
  show "drop (argv ?self') vec = drop (argv ?self') vec" ..
  show "take (nat (cpidx ?self')) vec = take (nat (cpidx self)) vec @ map Some []" by simp
  show "subseq (map Some []) (take (argv ?self' - argv self) (drop (argv self) vec))" by simp
  show "list_all plain_token []" by simp
  show "stopAtNonOption self \<longrightarrow> [] = []" by simp
  show "argv ?self' = A
      \<or> (argv self < argv ?self' \<and> (\<exists>t. vec ! (argv ?self' - 1) = Some t \<and> terminator_token t))
      \<or> (stopAtNonOption self \<and> argv ?self' < A
          \<and> (\<exists>t. vec ! argv ?self' = Some t \<and> plain_token t))"
    using vi assms(4) by simp
  show "\<forall>k t. argv self \<le> k \<and> k < argv ?self' \<and> vec ! k = Some t \<and> terminator_token t
      \<longrightarrow> k + 1 = argv ?self'"
    by auto
  show "\<forall>k t. stopAtNonOption self \<and> argv self \<le> k \<and> k < argv ?self' \<and> vec ! k = Some t
        \<and> plain_token t
      \<longrightarrow> argv self < k
          \<and> (\<exists>u. vec ! (k - 1) = Some u \<and> (length u = 2 \<or> char_at u 0 \<noteq> CHR ''-''))"
  proof (intro allI impI)
    fix k t
    assume a: "stopAtNonOption self \<and> argv self \<le> k \<and> k < argv ?self' \<and> vec ! k = Some t
        \<and> plain_token t"
    then have "k = argv self" by simp
    with a vi np show "argv self < k
          \<and> (\<exists>u. vec ! (k - 1) = Some u \<and> (length u = 2 \<or> char_at u 0 \<noteq> CHR ''-''))"
      by simp
  qed
  show "\<not> stopAtNonOption self
      \<and> (\<forall>k. argv self \<le> k \<and> k < argv ?self' \<longrightarrow> (\<exists>t. vec ! k = Some t \<and> plain_token t))
    \<longrightarrow> map Some [] = take (argv ?self' - argv self) (drop (argv self) vec)"
  proof (intro impI)
    assume "\<not> stopAtNonOption self
      \<and> (\<forall>k. argv self \<le> k \<and> k < argv ?self' \<longrightarrow> (\<exists>t. vec ! k = Some t \<and> plain_token t))"
    then have "\<exists>t. vec ! argv self = Some t \<and> plain_token t" by simp
    with vi np show "map Some [] = take (argv ?self' - argv self) (drop (argv self) vec)"
      by simp
  qed
qed

lemma compacted_copy:
  assumes inv: "loop_inv A self vec" and nz: "argc self \<noteq> 0"
    and arg: "arg_at vec (argv self) = Some arg" and pl: "plain_token arg"
    and ns: "\<not> stopAtNonOption self"
    and rest: "compacted A
        (self\<lparr>cpidx := cpidx self + 1, argc := argc self - 1, argv := argv self + 1\<rparr>)
        (vec[out self + nat (cpidx self) := Some arg]) self' vec' qs"
  shows "compacted A self vec self' vec' (arg # qs)"
proof (rule compactedI)
  let ?i = "argv self" and ?c = "nat (cpidx self)" and ?j = "argv self'"
  from inv have o: "out self = 0" and c0: "0 \<le> cpidx self" and ci: "?c < ?i"
    and iA: "?i \<le> A" and Al: "A \<le> length vec"
    by (simp_all add: loop_inv_def)
  from arg have il: "?i < length vec" and vi: "vec ! ?i = Some arg"
    by (simp_all add: arg_at_Some)
  let ?vec1 = "vec[?c := Some arg]"
  let ?self1 = "self\<lparr>cpidx := cpidx self + 1, argc := argc self - 1, argv := argv self + 1\<rparr>"
  have f: "argv ?self1 = Suc ?i" "nat (cpidx ?self1) = Suc ?c"
    "stopAtNonOption ?self1 = stopAtNonOption self" "out self + ?c = ?c"
    using c0 o by simp_all
  note r = compactedD [OF rest, unfolded f]
  have ij: "Suc ?i \<le> ?j" by (rule r(2))
  have same: "?vec1 ! k = vec ! k" if "?i \<le> k" for k
    using that ci by simp
  have d2: "drop (Suc ?i) ?vec1 = drop (Suc ?i) vec"
    using ci by (simp add: drop_update_cancel)
  have t1: "take (Suc ?c) ?vec1 = take ?c vec @ [Some arg]"
    using ci il by (simp add: take_Suc_conv_app_nth)
  have t2: "take (?j - ?i) (drop ?i vec) = Some arg # take (?j - Suc ?i) (drop (Suc ?i) vec)"
  proof -
    have "drop ?i vec = vec ! ?i # drop (Suc ?i) vec"
      using il by (simp add: Cons_nth_drop_Suc)
    moreover have "?j - ?i = Suc (?j - Suc ?i)"
      using ij by simp
    ultimately show ?thesis using vi by simp
  qed
  show "loop_inv A self' vec'" by (rule r(1))
  show "?i \<le> ?j" using ij by simp
  show "length vec' = length vec" using r(3) by simp
  show "stopAtNonOption self' = stopAtNonOption self" by (rule r(4))
  show "drop ?j vec' = drop ?j vec"
    using r(5) ci ij by (simp add: drop_update_cancel)
  show "take (nat (cpidx self')) vec' = take ?c vec @ map Some (arg # qs)"
    using r(6) t1 by simp
  show "subseq (map Some (arg # qs)) (take (?j - ?i) (drop ?i vec))"
    using r(7) by (simp add: t2 d2)
  show "list_all plain_token (arg # qs)"
    using r(8) pl by simp
  show "stopAtNonOption self \<longrightarrow> arg # qs = []"
    using ns by simp
  show "?j = A
      \<or> (?i < ?j \<and> (\<exists>t. vec ! (?j - 1) = Some t \<and> terminator_token t))
      \<or> (stopAtNonOption self \<and> ?j < A \<and> (\<exists>t. vec ! ?j = Some t \<and> plain_token t))"
    using r(10) ns ij same [of "?j - 1"] by auto
  show "\<forall>k t. ?i \<le> k \<and> k < ?j \<and> vec ! k = Some t \<and> terminator_token t \<longrightarrow> k + 1 = ?j"
  proof (intro allI impI)
    fix k t
    assume a: "?i \<le> k \<and> k < ?j \<and> vec ! k = Some t \<and> terminator_token t"
    show "k + 1 = ?j"
    proof (cases "k = ?i")
      case True
      with a vi pl show ?thesis by (simp add: terminator_token_def)
    next
      case False
      with a have "Suc ?i \<le> k" by simp
      with a same [of k] have "Suc ?i \<le> k \<and> k < ?j \<and> ?vec1 ! k = Some t \<and> terminator_token t"
        by simp
      with r(11) show ?thesis by blast
    qed
  qed
  show "\<forall>k t. stopAtNonOption self \<and> ?i \<le> k \<and> k < ?j \<and> vec ! k = Some t \<and> plain_token t
      \<longrightarrow> ?i < k \<and> (\<exists>u. vec ! (k - 1) = Some u \<and> (length u = 2 \<or> char_at u 0 \<noteq> CHR ''-''))"
    using ns by simp
  show "\<not> stopAtNonOption self
      \<and> (\<forall>k. ?i \<le> k \<and> k < ?j \<longrightarrow> (\<exists>t. vec ! k = Some t \<and> plain_token t))
    \<longrightarrow> map Some (arg # qs) = take (?j - ?i) (drop ?i vec)"
  proof (intro impI)
    assume a: "\<not> stopAtNonOption self
      \<and> (\<forall>k. ?i \<le> k \<and> k < ?j \<longrightarrow> (\<exists>t. vec ! k = Some t \<and> plain_token t))"
    have "\<forall>k. Suc ?i \<le> k \<and> k < ?j \<longrightarrow> (\<exists>t. ?vec1 ! k = Some t \<and> plain_token t)"
    proof (intro allI impI)
      fix k
      assume k: "Suc ?i \<le> k \<and> k < ?j"
      then have "?i \<le> k \<and> k < ?j" by simp
      with a have "\<exists>t. vec ! k = Some t \<and> plain_token t" by blast
      with k same [of k] show "\<exists>t. ?vec1 ! k = Some t \<and> plain_token t" by simp
    qed
    with r(13) ns have "map Some qs = take (?j - Suc ?i) (drop (Suc ?i) ?vec1)"
      by simp
    then show "map Some (arg # qs) = take (?j - ?i) (drop ?i vec)"
      by (simp add: t2 d2)
  qed
qed

lemma compacted_option:
  assumes inv: "loop_inv A self vec" and arg: "arg_at vec (argv self) = Some arg"
    and nt: "\<not> terminator_token arg"
    and vals: "\<forall>k. argv self < k \<and> k \<le> argv self + d \<longrightarrow>
                 k < length vec \<and> (\<exists>v. vec ! k = Some v \<and> char_at v 0 \<noteq> CHR ''-'')"
    and np: "\<not> plain_token arg" and two: "0 < d \<longrightarrow> length arg = 2"
    and nxt: "argv self1 = argv self + d + 1" "cpidx self1 = cpidx self"
      "stopAtNonOption self1 = stopAtNonOption self"
    and rest: "compacted A self1 vec self' vec' qs"
  shows "compacted A self vec self' vec' qs"
proof (rule compactedI)
  let ?i = "argv self" and ?j = "argv self'"
  note r = compactedD [OF rest, unfolded nxt]
  from arg have il: "?i < length vec" and vi: "vec ! ?i = Some arg"
    by (simp_all add: arg_at_Some)
  have ij: "?i + d + 1 \<le> ?j" by (rule r(2))
  show "loop_inv A self' vec'" by (rule r(1))
  show "?i \<le> ?j" using ij by simp
  show "length vec' = length vec" by (rule r(3))
  show "stopAtNonOption self' = stopAtNonOption self" by (rule r(4))
  show "drop ?j vec' = drop ?j vec" by (rule r(5))
  show "take (nat (cpidx self')) vec' = take (nat (cpidx self)) vec @ map Some qs" by (rule r(6))
  show "list_all plain_token qs" by (rule r(8))
  show "stopAtNonOption self \<longrightarrow> qs = []" by (rule r(9))
  show "subseq (map Some qs) (take (?j - ?i) (drop ?i vec))"
  proof -
    have "?j - ?i = (d + 1) + (?j - (?i + d + 1))"
      using ij by simp
    then have "take (?j - ?i) (drop ?i vec) =
        take (d + 1) (drop ?i vec) @ take (?j - (?i + d + 1)) (drop (d + 1) (drop ?i vec))"
      by (simp only: take_add)
    moreover have "drop (d + 1) (drop ?i vec) = drop (?i + d + 1) vec"
      by (simp only: drop_drop ac_simps)
    ultimately have "take (?j - ?i) (drop ?i vec) =
        take (d + 1) (drop ?i vec) @ take (?j - (?i + d + 1)) (drop (?i + d + 1) vec)"
      by simp
    with r(7) show ?thesis
      by (simp only: subseq_drop_many)
  qed
  show "?j = A
        \<or> (?i < ?j \<and> (\<exists>t. vec ! (?j - 1) = Some t \<and> terminator_token t))
        \<or> (stopAtNonOption self \<and> ?j < A \<and> (\<exists>t. vec ! ?j = Some t \<and> plain_token t))"
    using r(10) by auto
  show "\<forall>k t. ?i \<le> k \<and> k < ?j \<and> vec ! k = Some t \<and> terminator_token t \<longrightarrow> k + 1 = ?j"
  proof (intro allI impI)
    fix k t
    assume a: "?i \<le> k \<and> k < ?j \<and> vec ! k = Some t \<and> terminator_token t"
    consider "k = ?i" | "?i < k \<and> k \<le> ?i + d" | "?i + d + 1 \<le> k"
      using a by linarith
    then show "k + 1 = ?j"
    proof cases
      case 1
      with a vi nt show ?thesis by simp
    next
      case 2
      with vals obtain v where "vec ! k = Some v" "char_at v 0 \<noteq> CHR ''-''" by blast
      with a show ?thesis by (simp add: terminator_token_def plain_token_def)
    next
      case 3
      with a r(11) show ?thesis by blast
    qed
  qed
  show "\<forall>k t. stopAtNonOption self \<and> ?i \<le> k \<and> k < ?j \<and> vec ! k = Some t \<and> plain_token t
      \<longrightarrow> ?i < k \<and> (\<exists>u. vec ! (k - 1) = Some u \<and> (length u = 2 \<or> char_at u 0 \<noteq> CHR ''-''))"
  proof (intro allI impI)
    fix k t
    assume a: "stopAtNonOption self \<and> ?i \<le> k \<and> k < ?j \<and> vec ! k = Some t \<and> plain_token t"
    consider "k = ?i" | "k = ?i + 1 \<and> 0 < d" | "?i + 1 < k \<and> k \<le> ?i + d" | "?i + d + 1 \<le> k"
      using a by linarith
    then show "?i < k \<and> (\<exists>u. vec ! (k - 1) = Some u \<and> (length u = 2 \<or> char_at u 0 \<noteq> CHR ''-''))"
    proof cases
      case 1
      with a vi np show ?thesis by simp
    next
      case 2
      with vi two show ?thesis by simp
    next
      case 3
      then have "?i < k - 1 \<and> k - 1 \<le> ?i + d" by linarith
      with vals obtain v where "vec ! (k - 1) = Some v" "char_at v 0 \<noteq> CHR ''-''" by blast
      with 3 show ?thesis by simp
    next
      case 4
      from r(12) [rule_format, of k t] a 4 nxt(3)
      have "?i + d + 1 < k \<and> (\<exists>u. vec ! (k - 1) = Some u \<and> (length u = 2 \<or> char_at u 0 \<noteq> CHR ''-''))"
        by simp
      then show ?thesis by auto
    qed
  qed
  show "\<not> stopAtNonOption self
      \<and> (\<forall>k. ?i \<le> k \<and> k < ?j \<longrightarrow> (\<exists>t. vec ! k = Some t \<and> plain_token t))
    \<longrightarrow> map Some qs = take (?j - ?i) (drop ?i vec)"
  proof (intro impI)
    assume "\<not> stopAtNonOption self
      \<and> (\<forall>k. ?i \<le> k \<and> k < ?j \<longrightarrow> (\<exists>t. vec ! k = Some t \<and> plain_token t))"
    with ij have "\<exists>t. vec ! ?i = Some t \<and> plain_token t" by simp
    with vi np show "map Some qs = take (?j - ?i) (drop ?i vec)" by simp
  qed
qed

lemma parse_loop_compacted:
  "loop_inv A self vec \<Longrightarrow> parse_loop strtof self vec m = Inr (self', vec', m') \<Longrightarrow>
     \<exists>qs. compacted A self vec self' vec' qs"
proof (induction strtof self vec m rule: parse_loop_induct)
  case (exhausted strtof self vec m)
  then have "self' = self" "vec' = vec" "argv self = A"
    by (simp_all add: parse_loop_done loop_inv_def)
  with exhausted.prems(1) show ?case
    by (auto intro: compacted_here)
next
  case (fault strtof self vec m)
  then show ?case by (simp add: parse_loop_fault)
next
  case (stop strtof self vec m arg)
  then have "self' = self" "vec' = vec" "argv self < A" "vec ! argv self = Some arg"
    by (simp_all add: parse_loop_stop loop_inv_def arg_at_Some)
  with stop have "compacted A self vec self vec []"
    by (intro compacted_here) auto
  with \<open>self' = self\<close> \<open>vec' = vec\<close> show ?case by auto
next
  case (copy_fault strtof self vec m arg)
  then show ?case by (auto simp: parse_loop_copy)
next
  case (copy strtof self vec m arg)
  let ?self1 = "self\<lparr>cpidx := cpidx self + 1, argc := argc self - 1, argv := argv self + 1\<rparr>"
  let ?vec1 = "vec[out self + nat (cpidx self) := Some arg]"
  from copy have run: "parse_loop strtof ?self1 ?vec1 m = Inr (self', vec', m')"
    by (simp add: parse_loop_copy)
  have "loop_inv A ?self1 ?vec1"
    using copy.prems(1) copy(1) by (auto simp: loop_inv_def)
  from copy.IH [OF this run] obtain qs where "compacted A ?self1 ?vec1 self' vec' qs" ..
  with copy.prems(1) copy(1-4) have "compacted A self vec self' vec' (arg # qs)"
    by (rule compacted_copy)
  then show ?case ..
next
  case (short_option strtof self vec m arg)
  from short_option.prems(2) obtain self1 m1 where
    sh: "Argparser_parseShortOption strtof self (options self) vec m = Inr (self1, m1)"
    and run: "parse_loop strtof (self1\<lparr>argc := argc self1 - 1, argv := argv self1 + 1\<rparr>) vec m1 =
        Inr (self', vec', m')"
    unfolding parse_loop_short [OF short_option(1-4)]
    by (auto split: sum.splits)
  from parseShortOption_cursor [OF sh] obtain d where
    s1: "self1 = self\<lparr>argv := argv self + d, argc := argc self - int d\<rparr>"
    and dl: "0 < d \<longrightarrow> int d < argc self"
    and tw: "0 < d \<longrightarrow> (\<exists>a. arg_at vec (argv self) = Some a \<and> length a = 2)"
    and vals: "\<forall>k. argv self < k \<and> k \<le> argv self + d \<longrightarrow>
                 k < length vec \<and> (\<exists>v. vec ! k = Some v \<and> char_at v 0 \<noteq> CHR ''-'')"
    by blast
  let ?self2 = "self1\<lparr>argc := argc self1 - 1, argv := argv self1 + 1\<rparr>"
  have f: "out self1 = out self" "cpidx self1 = cpidx self" "argv self1 = argv self + d"
    "argc self1 = argc self - int d" "stopAtNonOption self1 = stopAtNonOption self"
    by (subst s1, simp)+
  have inv2: "loop_inv A ?self2 vec"
    using short_option.prems(1) short_option(1) dl f
    by (auto simp: loop_inv_def)
  from short_option.IH [OF sh inv2 run] obtain qs where c: "compacted A ?self2 vec self' vec' qs" ..
  have nt: "\<not> terminator_token arg"
    using short_option(4) by (simp add: terminator_token_def)
  have np: "\<not> plain_token arg" by (rule short_option(3))
  have two: "0 < d \<longrightarrow> length arg = 2"
    using tw short_option(2) by auto
  have "compacted A self vec self' vec' qs"
    using short_option.prems(1) short_option(2) nt vals np two _ _ _ c
    by (rule compacted_option) (simp_all add: f)
  then show ?case ..
next
  case (long_option strtof self vec m arg)
  from long_option.prems(2) obtain m1 where
    lg: "Argparser_parseLongOption strtof self (options self) vec m = Inr m1"
    and run: "parse_loop strtof (self\<lparr>argc := argc self - 1, argv := argv self + 1\<rparr>) vec m1 =
        Inr (self', vec', m')"
    unfolding parse_loop_long [OF long_option(1-5)]
    by (auto split: sum.splits)
  let ?self2 = "self\<lparr>argc := argc self - 1, argv := argv self + 1\<rparr>"
  have inv2: "loop_inv A ?self2 vec"
    using long_option.prems(1) long_option(1) by (auto simp: loop_inv_def)
  from long_option.IH [OF lg inv2 run] obtain qs where c: "compacted A ?self2 vec self' vec' qs" ..
  have nt: "\<not> terminator_token arg"
    using long_option(5) by (simp add: terminator_token_def)
  have "compacted A self vec self' vec' qs"
    using long_option.prems(1) long_option(2) nt _ long_option(3) _ _ _ _ c
    by (rule compacted_option [where d = 0]) auto
  then show ?case ..
next
  case (terminator strtof self vec m arg)
  then have r: "self' = self\<lparr>argc := argc self - 1, argv := argv self + 1\<rparr>" "vec' = vec"
    by (simp_all add: parse_loop_terminator)
  have "terminator_token arg"
    using terminator(3-5) by (simp add: terminator_token_def)
  with terminator.prems(1) terminator(1,2)
  have "compacted A self vec (self\<lparr>argc := argc self - 1, argv := argv self + 1\<rparr>) vec []"
    by (rule compacted_terminator)
  then show ?case
    unfolding r ..
qed

subsection \<open>The whole call on a handle that has not parsed before\<close>

lemma take_length_prefix: "length xs = n \<Longrightarrow> take n (xs @ ys) = xs"
  by simp

lemma parse_finish:
  assumes "valid self"
    and "parse_loop strtof (self\<lparr>argc := argc0 - 1, argv := 1, out := 0\<rparr>) vec m =
           Inr (self2, vec2, m2)"
    and "0 \<le> cpidx self2"
    and "memmove vec2 (out self2 + nat (cpidx self2)) (argv self2) (argc self2) = Some vec3"
    and "out self2 + nat (cpidx self2 + argc self2) < length vec3"
  shows "Argparser_parse strtof self argc0 vec m =
           Inr (cpidx self2 + argc self2, self2,
                vec3[out self2 + nat (cpidx self2 + argc self2) := None], m2)"
  using assms by (simp add: Argparser_parse_def)

lemma parse_returns_loop:
  assumes "Argparser_parse strtof self argc0 vec m = Inr r"
  shows "valid self \<and>
     (\<exists>self2 vec2 m2. parse_loop strtof (self\<lparr>argc := argc0 - 1, argv := 1, out := 0\<rparr>) vec m =
         Inr (self2, vec2, m2))"
proof (cases "parse_loop strtof (self\<lparr>argc := argc0 - 1, argv := 1, out := 0\<rparr>) vec m")
  case (Inl e)
  with assms show ?thesis
    by (simp add: Argparser_parse_def split: if_splits)
next
  case (Inr x)
  obtain a b c where "x = (a, b, c)" by (cases x)
  with Inr assms show ?thesis
    by (simp add: Argparser_parse_def split: if_splits)
qed

text \<open>The compaction of the tail and the sentinel, on the list.\<close>

lemma memmove_tail:
  assumes "c < j" and "j \<le> A" and "A \<le> length vec2"
  shows "memmove vec2 c j (int A - int j) =
           Some (take c vec2 @ take (A - j) (drop j vec2) @ drop (c + (A - j)) vec2)"
  using assms by (simp add: memmove_def nat_diff_distrib)

lemma sentinel_front:
  assumes "c < j" and "j \<le> A" and "A \<le> length vec2"
  shows "take (Suc (c + (A - j)))
           ((take c vec2 @ take (A - j) (drop j vec2) @ drop (c + (A - j)) vec2)
              [c + (A - j) := None]) =
         take c vec2 @ take (A - j) (drop j vec2) @ [None]"
proof -
  let ?n = "c + (A - j)"
  let ?front = "take c vec2 @ take (A - j) (drop j vec2)"
  have lf: "length ?front = ?n"
    using assms by simp
  have nl: "?n < length vec2"
    using assms by simp
  have "(?front @ drop ?n vec2)[?n := None] = ?front @ (drop ?n vec2)[0 := None]"
    using lf by (simp only: list_update_append) simp
  moreover have "drop ?n vec2 = vec2 ! ?n # drop (Suc ?n) vec2"
    using nl by (simp add: Cons_nth_drop_Suc)
  ultimately have "(?front @ drop ?n vec2)[?n := None] = ?front @ None # drop (Suc ?n) vec2"
    by simp
  then have "take (Suc ?n) ((?front @ drop ?n vec2)[?n := None]) = ?front @ [None]"
    using lf by simp
  then show ?thesis by simp
qed

lemma parse_compacted:
  assumes v: "valid self" and c0: "cpidx self = 0" and A1: "1 \<le> A" and Al: "A \<le> length vec"
    and run: "Argparser_parse strtof self (int A) vec m = Inr (n, self', vec', m')"
  shows "\<exists>qs j. 1 \<le> j \<and> j \<le> A \<and> n = int (length qs + (A - j))
           \<and> take (nat n + 1) vec' = map Some qs @ take (A - j) (drop j vec) @ [None]
           \<and> subseq (map Some qs) (take (j - 1) (drop 1 vec))
           \<and> list_all plain_token qs
           \<and> (stopAtNonOption self \<longrightarrow> qs = [])
           \<and> (j = A
               \<or> (1 < j \<and> (\<exists>t. vec ! (j - 1) = Some t \<and> terminator_token t))
               \<or> (stopAtNonOption self \<and> j < A \<and> (\<exists>t. vec ! j = Some t \<and> plain_token t)))
           \<and> (\<forall>k t. 1 \<le> k \<and> k < j \<and> vec ! k = Some t \<and> terminator_token t \<longrightarrow> k + 1 = j)
           \<and> (\<forall>k t. stopAtNonOption self \<and> 1 \<le> k \<and> k < j \<and> vec ! k = Some t \<and> plain_token t
                \<longrightarrow> 1 < k
                   \<and> (\<exists>u. vec ! (k - 1) = Some u \<and> (length u = 2 \<or> char_at u 0 \<noteq> CHR ''-'')))
           \<and> (\<not> stopAtNonOption self
                 \<and> (\<forall>k. 1 \<le> k \<and> k < j \<longrightarrow> (\<exists>t. vec ! k = Some t \<and> plain_token t))
               \<longrightarrow> map Some qs = take (j - 1) (drop 1 vec))"
proof -
  let ?self1 = "self\<lparr>argc := int A - 1, argv := 1, out := 0\<rparr>"
  from parse_returns_loop [OF run] obtain self2 vec2 m2 where
    loop: "parse_loop strtof ?self1 vec m = Inr (self2, vec2, m2)"
    by blast
  have inv1: "loop_inv A ?self1 vec"
    using c0 A1 Al by (simp add: loop_inv_def)
  from parse_loop_compacted [OF inv1 loop] obtain qs where c: "compacted A ?self1 vec self2 vec2 qs" ..
  note r = compactedD [OF c]
  let ?j = "argv self2" and ?c = "nat (cpidx self2)"
  from r(1) have o: "out self2 = 0" and cp: "0 \<le> cpidx self2" and cj: "?c < ?j" and jA: "?j \<le> A"
    and ac: "argc self2 = int A - int ?j" and Al2: "A \<le> length vec2"
    by (simp_all add: loop_inv_def)
  from r(2) have j1: "1 \<le> ?j" by simp
  have tk: "take ?c vec2 = map Some qs"
    using r(6) c0 by simp
  have cl: "?c = length qs"
  proof -
    have "length (take ?c vec2) = ?c"
      using cj jA Al2 by simp
    with tk show ?thesis by simp
  qed
  let ?n = "?c + (A - ?j)"
  let ?vec3 = "take ?c vec2 @ take (A - ?j) (drop ?j vec2) @ drop ?n vec2"
  have mm: "memmove vec2 (out self2 + ?c) ?j (argc self2) = Some ?vec3"
    unfolding o ac using memmove_tail [OF cj jA Al2] by simp
  have nn: "nat (cpidx self2 + argc self2) = ?n"
    using cp ac jA by (simp add: nat_add_distrib nat_diff_distrib)
  have nl: "out self2 + nat (cpidx self2 + argc self2) < length ?vec3"
    unfolding o nn using cj jA Al2 by simp
  have pf: "Argparser_parse strtof self (int A) vec m =
      Inr (cpidx self2 + argc self2, self2,
           ?vec3[out self2 + nat (cpidx self2 + argc self2) := None], m2)"
    using v loop cp mm nl by (rule parse_finish)
  have res: "n = cpidx self2 + argc self2"
    "vec' = ?vec3[out self2 + nat (cpidx self2 + argc self2) := None]"
    using run unfolding pf by auto
  have n_nat: "nat n = ?n"
    using res(1) nn by simp
  have n_eq: "n = int (length qs + (A - ?j))"
    using res(1) cp ac jA cl by simp
  have "take (nat n + 1) vec' = take ?c vec2 @ take (A - ?j) (drop ?j vec2) @ [None]"
    unfolding res(2) n_nat o nn using sentinel_front [OF cj jA Al2] by simp
  then have front: "take (nat n + 1) vec' = map Some qs @ take (A - ?j) (drop ?j vec) @ [None]"
    using tk r(5) by simp
  have sb: "subseq (map Some qs) (take (?j - 1) (drop 1 vec))"
    using r(7) by simp
  have en: "?j = A
      \<or> (1 < ?j \<and> (\<exists>t. vec ! (?j - 1) = Some t \<and> terminator_token t))
      \<or> (stopAtNonOption self \<and> ?j < A \<and> (\<exists>t. vec ! ?j = Some t \<and> plain_token t))"
    using r(10) by simp
  have nt: "\<forall>k t. 1 \<le> k \<and> k < ?j \<and> vec ! k = Some t \<and> terminator_token t \<longrightarrow> k + 1 = ?j"
    using r(11) by simp
  have sk: "\<forall>k t. stopAtNonOption self \<and> 1 \<le> k \<and> k < ?j \<and> vec ! k = Some t \<and> plain_token t
      \<longrightarrow> 1 < k \<and> (\<exists>u. vec ! (k - 1) = Some u \<and> (length u = 2 \<or> char_at u 0 \<noteq> CHR ''-''))"
    using r(12) by simp
  have st: "stopAtNonOption self \<longrightarrow> qs = []"
    using r(9) by simp
  have al: "\<not> stopAtNonOption self
      \<and> (\<forall>k. 1 \<le> k \<and> k < ?j \<longrightarrow> (\<exists>t. vec ! k = Some t \<and> plain_token t))
    \<longrightarrow> map Some qs = take (?j - 1) (drop 1 vec)"
    using r(13) by simp
  show ?thesis
    apply (rule exI [of _ qs])
    apply (rule exI [of _ ?j])
    using j1 jA n_eq front sb r(8) st en nt sk al
    apply (intro conjI)
    apply assumption+
    done
qed

subsection \<open>Where the exit of an unknown option comes from\<close>

lemma parseValue_unknown:
  assumes "\<forall>f m u m'. callback opt = Some f \<longrightarrow> f m \<noteq> Inl (UnknownOption u, m')"
  shows "Argparser_parseValue strtof opt v m \<noteq> Inl (UnknownOption u, m')"
  using assms
  by (auto simp: Argparser_parseValue_def run_callback_def Argparser_exitDueToError_def
      split: option.splits ArgparserOptionType.splits prod.splits)

lemma callbacks_do_not_raise_unknown_Cons:
  "callbacks_do_not_raise_unknown (opt # opts) \<Longrightarrow>
     callbacks_do_not_raise_unknown opts \<and>
     (\<forall>f m u m'. callback opt = Some f \<longrightarrow> f m \<noteq> Inl (UnknownOption u, m'))"
  by (auto simp: callbacks_do_not_raise_unknown_def)

lemma short_single_unknown:
  "callbacks_do_not_raise_unknown opts \<Longrightarrow>
     short_single strtof opts vec self m found \<noteq> Inl (UnknownOption u, m')"
proof (induction opts arbitrary: self m found)
  case Nil
  then show ?case by simp
next
  case (Cons opt opts)
  note IH = Cons.IH [OF conjunct1 [OF callbacks_do_not_raise_unknown_Cons [OF Cons.prems]]]
  note pv = parseValue_unknown [OF conjunct2 [OF callbacks_do_not_raise_unknown_Cons [OF Cons.prems]]]
  show ?case
    using IH pv
    by (auto split: option.splits sum.splits dest: following_value_Fault)
qed

lemma short_single_found:
  "short_single strtof opts vec self m True = Inr (self', m', found') \<Longrightarrow> found'"
proof (induction opts arbitrary: self m)
  case Nil
  then show ?case by simp
next
  case (Cons opt opts)
  show ?case
    using Cons.prems Cons.IH
    by (auto split: if_splits option.splits sum.splits)
qed

lemma short_single_not_found:
  "short_single strtof opts vec self m found = Inr (self', m', False) \<Longrightarrow> self' = self"
proof (induction opts arbitrary: self m found)
  case Nil
  then show ?case by simp
next
  case (Cons opt opts)
  show ?case
    using Cons.prems Cons.IH [of self m found] short_single_found [of strtof opts vec _ _ self' m' False]
    by (auto split: if_splits option.splits sum.splits)
qed

lemma compound_scan_unknown:
  "callbacks_do_not_raise_unknown opts \<Longrightarrow>
     compound_scan strtof opts c m found \<noteq> Inl (UnknownOption u, m')"
proof (induction opts arbitrary: m found)
  case Nil
  then show ?case by simp
next
  case (Cons opt opts)
  note IH = Cons.IH [OF conjunct1 [OF callbacks_do_not_raise_unknown_Cons [OF Cons.prems]]]
  note pv = parseValue_unknown [OF conjunct2 [OF callbacks_do_not_raise_unknown_Cons [OF Cons.prems]]]
  show ?case
    using IH pv by (auto split: sum.splits)
qed

lemma exitDueToUnknownOption_token:
  "(Argparser_exitDueToUnknownOption self vec m = Inl (UnknownOption u, m')) =
     (arg_at vec (argv self) = Some u \<and> m' = m)"
  by (auto simp: Argparser_exitDueToUnknownOption_def split: option.splits)

lemma short_compound_unknown:
  "callbacks_do_not_raise_unknown opts \<Longrightarrow>
     short_compound strtof opts self vec cs m found = Inl (UnknownOption u, m') \<Longrightarrow>
     arg_at vec (argv self) = Some u"
proof (induction cs arbitrary: m found)
  case Nil
  then show ?case by simp
next
  case (Cons c cs)
  show ?case
    using Cons.prems(2) Cons.IH [OF Cons.prems(1)]
      compound_scan_unknown [OF Cons.prems(1), of strtof c m False u m']
    by (auto split: sum.splits if_splits simp: exitDueToUnknownOption_token)
qed

lemma long_scan_unknown:
  "callbacks_do_not_raise_unknown opts \<Longrightarrow>
     long_scan strtof opts arg m found \<noteq> Inl (UnknownOption u, m')"
proof (induction opts arbitrary: m found)
  case Nil
  then show ?case by simp
next
  case (Cons opt opts)
  note IH = Cons.IH [OF conjunct1 [OF callbacks_do_not_raise_unknown_Cons [OF Cons.prems]]]
  note pv = parseValue_unknown [OF conjunct2 [OF callbacks_do_not_raise_unknown_Cons [OF Cons.prems]]]
  show ?case
    using IH pv by (auto split: option.splits sum.splits)
qed

lemma parseShortOption_unknown:
  assumes "callbacks_do_not_raise_unknown opts"
    and "Argparser_parseShortOption strtof self opts vec m = Inl (UnknownOption u, m')"
  shows "arg_at vec (argv self) = Some u"
proof (cases "arg_at vec (argv self)")
  case None
  with assms(2) show ?thesis by (simp add: Argparser_parseShortOption_def)
next
  case (Some a)
  show ?thesis
  proof (cases "length a = 2")
    case True
    show ?thesis
    proof (cases "short_single strtof opts vec self m False")
      case (Inl e)
      with assms Some True short_single_unknown [OF assms(1), of strtof vec self m False u m']
      show ?thesis by (simp add: Argparser_parseShortOption_def)
    next
      case (Inr y)
      obtain self1 m1 f1 where y: "y = (self1, m1, f1)" by (cases y)
      with assms(2) Some True Inr have nf: "\<not> f1"
        and tok: "arg_at vec (argv self1) = Some u"
        by (auto simp: Argparser_parseShortOption_def exitDueToUnknownOption_token
            split: if_splits)
      from Inr y nf have "self1 = self"
        by (simp add: short_single_not_found)
      with tok show ?thesis by simp
    qed
  next
    case False
    with assms(2) Some short_compound_unknown [OF assms(1), of strtof self vec "tl a" m False u m']
    show ?thesis
      by (auto simp: Argparser_parseShortOption_def exitDueToUnknownOption_token
          split: if_splits sum.splits)
  qed
qed

lemma parseLongOption_unknown:
  assumes "callbacks_do_not_raise_unknown opts"
    and "Argparser_parseLongOption strtof self opts vec m = Inl (UnknownOption u, m')"
  shows "arg_at vec (argv self) = Some u"
  using assms(2) long_scan_unknown [OF assms(1), of strtof _ m False u m']
  by (auto simp: Argparser_parseLongOption_def exitDueToUnknownOption_token
      split: option.splits sum.splits if_splits)

lemma value_not_terminator: "char_at v 0 \<noteq> CHR ''-'' \<Longrightarrow> \<not> terminator_token v"
  by (simp add: terminator_token_def plain_token_def)

lemma parse_loop_unknown:
  "loop_inv A self vec \<Longrightarrow> callbacks_do_not_raise_unknown (options self) \<Longrightarrow>
     parse_loop strtof self vec m = Inl (UnknownOption u, m') \<Longrightarrow>
     \<exists>k. argv self \<le> k \<and> k < A \<and> vec ! k = Some u
       \<and> (\<forall>k' t. argv self \<le> k' \<and> k' \<le> k \<and> vec ! k' = Some t \<longrightarrow> \<not> terminator_token t)
       \<and> (\<forall>k' t. stopAtNonOption self \<and> argv self \<le> k' \<and> k' \<le> k \<and> vec ! k' = Some t
               \<and> plain_token t
             \<longrightarrow> argv self < k'
                 \<and> (\<exists>w. vec ! (k' - 1) = Some w \<and> (length w = 2 \<or> char_at w 0 \<noteq> CHR ''-'')))"
proof (induction strtof self vec m rule: parse_loop_induct)
  case (exhausted strtof self vec m)
  then show ?case by (simp add: parse_loop_done)
next
  case (fault strtof self vec m)
  then show ?case by (simp add: parse_loop_fault)
next
  case (stop strtof self vec m arg)
  then show ?case by (simp add: parse_loop_stop)
next
  case (copy_fault strtof self vec m arg)
  then show ?case by (auto simp: parse_loop_copy)
next
  case (copy strtof self vec m arg)
  let ?i = "argv self" and ?c = "nat (cpidx self)"
  let ?self1 = "self\<lparr>cpidx := cpidx self + 1, argc := argc self - 1, argv := argv self + 1\<rparr>"
  let ?vec1 = "vec[out self + nat (cpidx self) := Some arg]"
  from copy have run: "parse_loop strtof ?self1 ?vec1 m = Inl (UnknownOption u, m')"
    by (simp add: parse_loop_copy)
  have inv1: "loop_inv A ?self1 ?vec1"
    using copy.prems(1) copy(1) by (auto simp: loop_inv_def)
  from copy.prems(1) have o: "out self = 0" and ci: "?c < ?i"
    by (simp_all add: loop_inv_def)
  from copy(2) have vi: "vec ! ?i = Some arg" by (simp add: arg_at_Some)
  have same: "?vec1 ! k = vec ! k" if "?i \<le> k" for k
    using that ci o by simp
  from copy.IH [OF inv1 _ run] copy.prems(2) obtain k where
    k: "Suc ?i \<le> k" "k < A" "?vec1 ! k = Some u"
    and nt: "\<forall>k' t. Suc ?i \<le> k' \<and> k' \<le> k \<and> ?vec1 ! k' = Some t \<longrightarrow> \<not> terminator_token t"
    by auto
  have "\<forall>k' t. ?i \<le> k' \<and> k' \<le> k \<and> vec ! k' = Some t \<longrightarrow> \<not> terminator_token t"
  proof (intro allI impI)
    fix k' t
    assume a: "?i \<le> k' \<and> k' \<le> k \<and> vec ! k' = Some t"
    show "\<not> terminator_token t"
    proof (cases "k' = ?i")
      case True
      with a vi copy(3) show ?thesis by (simp add: terminator_token_def)
    next
      case False
      with a same [of k'] have "Suc ?i \<le> k' \<and> k' \<le> k \<and> ?vec1 ! k' = Some t" by simp
      with nt show ?thesis by blast
    qed
  qed
  moreover have "?i \<le> k" "vec ! k = Some u"
    using k same [of k] by simp_all
  moreover have "\<forall>k' t. stopAtNonOption self \<and> ?i \<le> k' \<and> k' \<le> k \<and> vec ! k' = Some t
        \<and> plain_token t
      \<longrightarrow> ?i < k' \<and> (\<exists>w. vec ! (k' - 1) = Some w \<and> (length w = 2 \<or> char_at w 0 \<noteq> CHR ''-''))"
    using copy(4) by simp
  ultimately show ?case using k(2) by blast
next
  case (short_option strtof self vec m arg)
  let ?i = "argv self"
  from short_option(1) short_option.prems(1) have iA: "?i < A"
    by (auto simp: loop_inv_def)
  from short_option(2) have vi: "vec ! ?i = Some arg" by (simp add: arg_at_Some)
  have nta: "\<not> terminator_token arg"
    using short_option(4) by (simp add: terminator_token_def)
  note short_or_long_np = short_option(3)
  show ?case
  proof (cases "Argparser_parseShortOption strtof self (options self) vec m")
    case (Inl e)
    with short_option.prems(3) have "e = (UnknownOption u, m')"
      unfolding parse_loop_short [OF short_option(1-4)] by simp
    with Inl short_option.prems(2) short_option(2) have "arg = u"
      by (auto dest: parseShortOption_unknown)
    with iA vi nta short_or_long_np show ?thesis
      by (intro exI [of _ ?i]) auto
  next
    case (Inr y)
    obtain self1 m1 where y: "y = (self1, m1)" by (cases y)
    from Inr y have sh: "Argparser_parseShortOption strtof self (options self) vec m = Inr (self1, m1)"
      by simp
    let ?self2 = "self1\<lparr>argc := argc self1 - 1, argv := argv self1 + 1\<rparr>"
    from short_option.prems(3) sh have run: "parse_loop strtof ?self2 vec m1 = Inl (UnknownOption u, m')"
      unfolding parse_loop_short [OF short_option(1-4)] by simp
    from parseShortOption_cursor [OF sh] obtain d where
      s1: "self1 = self\<lparr>argv := argv self + d, argc := argc self - int d\<rparr>"
      and dl: "0 < d \<longrightarrow> int d < argc self"
      and vals: "\<forall>k. argv self < k \<and> k \<le> argv self + d \<longrightarrow>
                   k < length vec \<and> (\<exists>v. vec ! k = Some v \<and> char_at v 0 \<noteq> CHR ''-'')"
      by blast
    have f: "out self1 = out self" "cpidx self1 = cpidx self" "argv self1 = argv self + d"
      "argc self1 = argc self - int d" "options self1 = options self"
      by (subst s1, simp)+
    have inv2: "loop_inv A ?self2 vec"
      using short_option.prems(1) short_option(1) dl f
      by (auto simp: loop_inv_def)
    have cb2: "callbacks_do_not_raise_unknown (options ?self2)"
      using short_option.prems(2) f by simp
    from parseShortOption_cursor [OF sh] s1 have tw: "0 < d \<longrightarrow> length arg = 2"
      using short_option(2) by (metis Argparser.select_convs(8) Argparser.surjective
          Argparser.update_convs(7,8) add_left_cancel option.inject)
    have fs: "stopAtNonOption ?self2 = stopAtNonOption self" "argv ?self2 = ?i + d + 1"
      by (subst s1, simp)+
    from short_option.IH [OF sh inv2 cb2 run] obtain k where
      k: "?i + d + 1 \<le> k" "k < A" "vec ! k = Some u"
      and nt: "\<forall>k' t. ?i + d + 1 \<le> k' \<and> k' \<le> k \<and> vec ! k' = Some t \<longrightarrow> \<not> terminator_token t"
      and sk: "\<forall>k' t. stopAtNonOption self \<and> ?i + d + 1 \<le> k' \<and> k' \<le> k \<and> vec ! k' = Some t
          \<and> plain_token t
        \<longrightarrow> ?i + d + 1 < k'
            \<and> (\<exists>w. vec ! (k' - 1) = Some w \<and> (length w = 2 \<or> char_at w 0 \<noteq> CHR ''-''))"
      unfolding fs by blast
    have "\<forall>k' t. ?i \<le> k' \<and> k' \<le> k \<and> vec ! k' = Some t \<longrightarrow> \<not> terminator_token t"
    proof (intro allI impI)
      fix k' t
      assume a: "?i \<le> k' \<and> k' \<le> k \<and> vec ! k' = Some t"
      consider "k' = ?i" | "?i < k' \<and> k' \<le> ?i + d" | "?i + d + 1 \<le> k'"
        using a by linarith
      then show "\<not> terminator_token t"
      proof cases
        case 1
        with a vi nta show ?thesis by simp
      next
        case 2
        with vals obtain v where "vec ! k' = Some v" "char_at v 0 \<noteq> CHR ''-''" by blast
        with a show ?thesis by (simp add: value_not_terminator)
      next
        case 3
        with a nt show ?thesis by blast
      qed
    qed
    moreover have "?i \<le> k" using k(1) by simp
    moreover have "\<forall>k' t. stopAtNonOption self \<and> ?i \<le> k' \<and> k' \<le> k \<and> vec ! k' = Some t
          \<and> plain_token t
        \<longrightarrow> ?i < k' \<and> (\<exists>w. vec ! (k' - 1) = Some w \<and> (length w = 2 \<or> char_at w 0 \<noteq> CHR ''-''))"
    proof (intro allI impI)
      fix k' t
      assume a: "stopAtNonOption self \<and> ?i \<le> k' \<and> k' \<le> k \<and> vec ! k' = Some t \<and> plain_token t"
      consider "k' = ?i" | "k' = ?i + 1 \<and> 0 < d" | "?i + 1 < k' \<and> k' \<le> ?i + d" | "?i + d + 1 \<le> k'"
        using a by linarith
      then show "?i < k' \<and> (\<exists>w. vec ! (k' - 1) = Some w \<and> (length w = 2 \<or> char_at w 0 \<noteq> CHR ''-''))"
      proof cases
        case 1
        with a vi short_option(3) show ?thesis by simp
      next
        case 2
        with vi tw show ?thesis by simp
      next
        case 3
        then have "?i < k' - 1 \<and> k' - 1 \<le> ?i + d" by linarith
        with vals obtain v where "vec ! (k' - 1) = Some v" "char_at v 0 \<noteq> CHR ''-''" by blast
        with 3 show ?thesis by simp
      next
        case 4
        with a sk have "?i + d + 1 < k'
            \<and> (\<exists>w. vec ! (k' - 1) = Some w \<and> (length w = 2 \<or> char_at w 0 \<noteq> CHR ''-''))"
          by blast
        then show ?thesis by auto
      qed
    qed
    ultimately show ?thesis using k(2,3) by blast
  qed
next
  case (long_option strtof self vec m arg)
  let ?i = "argv self"
  from long_option(1) long_option.prems(1) have iA: "?i < A"
    by (auto simp: loop_inv_def)
  from long_option(2) have vi: "vec ! ?i = Some arg" by (simp add: arg_at_Some)
  have nta: "\<not> terminator_token arg"
    using long_option(5) by (simp add: terminator_token_def)
  note short_or_long_np = long_option(3)
  show ?case
  proof (cases "Argparser_parseLongOption strtof self (options self) vec m")
    case (Inl e)
    with long_option.prems(3) have "e = (UnknownOption u, m')"
      unfolding parse_loop_long [OF long_option(1-5)] by simp
    with Inl long_option.prems(2) long_option(2) have "arg = u"
      by (auto dest: parseLongOption_unknown)
    with iA vi nta short_or_long_np show ?thesis
      by (intro exI [of _ ?i]) auto
  next
    case (Inr m1)
    let ?self2 = "self\<lparr>argc := argc self - 1, argv := argv self + 1\<rparr>"
    from long_option.prems(3) Inr have run: "parse_loop strtof ?self2 vec m1 = Inl (UnknownOption u, m')"
      unfolding parse_loop_long [OF long_option(1-5)] by simp
    have inv2: "loop_inv A ?self2 vec"
      using long_option.prems(1) long_option(1) by (auto simp: loop_inv_def)
    have cb2: "callbacks_do_not_raise_unknown (options ?self2)"
      using long_option.prems(2) by simp
    have fs: "stopAtNonOption ?self2 = stopAtNonOption self" "argv ?self2 = Suc ?i"
      by simp_all
    from long_option.IH [OF Inr inv2 cb2 run] obtain k where
      k: "Suc ?i \<le> k" "k < A" "vec ! k = Some u"
      and nt: "\<forall>k' t. Suc ?i \<le> k' \<and> k' \<le> k \<and> vec ! k' = Some t \<longrightarrow> \<not> terminator_token t"
      and sk: "\<forall>k' t. stopAtNonOption self \<and> Suc ?i \<le> k' \<and> k' \<le> k \<and> vec ! k' = Some t
          \<and> plain_token t
        \<longrightarrow> Suc ?i < k'
            \<and> (\<exists>w. vec ! (k' - 1) = Some w \<and> (length w = 2 \<or> char_at w 0 \<noteq> CHR ''-''))"
      unfolding fs by blast
    have "\<forall>k' t. ?i \<le> k' \<and> k' \<le> k \<and> vec ! k' = Some t \<longrightarrow> \<not> terminator_token t"
    proof (intro allI impI)
      fix k' t
      assume a: "?i \<le> k' \<and> k' \<le> k \<and> vec ! k' = Some t"
      show "\<not> terminator_token t"
      proof (cases "k' = ?i")
        case True
        with a vi nta show ?thesis by simp
      next
        case False
        with a have "Suc ?i \<le> k' \<and> k' \<le> k \<and> vec ! k' = Some t" by simp
        with nt show ?thesis by blast
      qed
    qed
    moreover have "?i \<le> k" using k(1) by simp
    moreover have "\<forall>k' t. stopAtNonOption self \<and> ?i \<le> k' \<and> k' \<le> k \<and> vec ! k' = Some t
          \<and> plain_token t
        \<longrightarrow> ?i < k' \<and> (\<exists>w. vec ! (k' - 1) = Some w \<and> (length w = 2 \<or> char_at w 0 \<noteq> CHR ''-''))"
    proof (intro allI impI)
      fix k' t
      assume a: "stopAtNonOption self \<and> ?i \<le> k' \<and> k' \<le> k \<and> vec ! k' = Some t \<and> plain_token t"
      show "?i < k' \<and> (\<exists>w. vec ! (k' - 1) = Some w \<and> (length w = 2 \<or> char_at w 0 \<noteq> CHR ''-''))"
      proof (cases "k' = ?i")
        case True
        with a vi long_option(3) show ?thesis by simp
      next
        case False
        with a sk have "Suc ?i < k'
            \<and> (\<exists>w. vec ! (k' - 1) = Some w \<and> (length w = 2 \<or> char_at w 0 \<noteq> CHR ''-''))"
          by simp
        then show ?thesis by auto
      qed
    qed
    ultimately show ?thesis using k(2,3) by blast
  qed
next
  case (terminator strtof self vec m arg)
  then show ?case by (simp add: parse_loop_terminator)
qed

lemma parse_unknown:
  assumes "valid self" and "cpidx self = 0" and "1 \<le> A" and "A \<le> length vec"
    and "callbacks_do_not_raise_unknown (options self)"
    and "Argparser_parse strtof self (int A) vec m = Inl (UnknownOption u, m')"
  shows "\<exists>k. 1 \<le> k \<and> k < A \<and> vec ! k = Some u
       \<and> (\<forall>k' t. 1 \<le> k' \<and> k' \<le> k \<and> vec ! k' = Some t \<longrightarrow> \<not> terminator_token t)
       \<and> (\<forall>k' t. stopAtNonOption self \<and> 1 \<le> k' \<and> k' \<le> k \<and> vec ! k' = Some t \<and> plain_token t
             \<longrightarrow> 1 < k'
                 \<and> (\<exists>w. vec ! (k' - 1) = Some w \<and> (length w = 2 \<or> char_at w 0 \<noteq> CHR ''-'')))"
proof -
  let ?self1 = "self\<lparr>argc := int A - 1, argv := 1, out := 0\<rparr>"
  have inv1: "loop_inv A ?self1 vec"
    using assms(2-4) by (simp add: loop_inv_def)
  have cb: "callbacks_do_not_raise_unknown (options ?self1)"
    using assms(5) by simp
  have "parse_loop strtof ?self1 vec m = Inl (UnknownOption u, m')"
    using assms(1,6)
    by (auto simp: Argparser_parse_def split: sum.splits if_splits option.splits)
  from parse_loop_unknown [OF inv1 cb this] show ?thesis by simp
qed

subsection \<open>Tokens and subsequences\<close>

lemma terminator_token_iff:
  assumes "NUL \<notin> set t"
  shows "terminator_token t \<longleftrightarrow> t = ''--''"
proof
  assume tt: "terminator_token t"
  then obtain a b r where t: "t = a # b # r"
    by (cases t; cases "tl t") (auto simp: terminator_token_def plain_token_def char_at_def)
  with tt assms have "a = CHR ''-''" "b = CHR ''-''" "r = []"
    by (cases r; auto simp: terminator_token_def plain_token_def char_at_def split: if_splits)+
  with t show "t = ''--''" by simp
next
  assume "t = ''--''"
  then show "terminator_token t"
    by (simp add: terminator_token_def plain_token_def char_at_def NUL_def)
qed

lemma subseq_snoc_notin:
  assumes "subseq xs (ys @ [y])" and "y \<notin> set xs"
  shows "subseq xs ys"
  using assms
proof (induction ys arbitrary: xs)
  case Nil
  then show ?case
    by (cases xs) (auto simp: subseq_Cons2_iff split: if_splits)
next
  case (Cons z zs)
  show ?case
  proof (cases xs)
    case Nil
    then show ?thesis by simp
  next
    case (Cons x xs')
    show ?thesis
    proof (cases "x = z")
      case True
      with Cons Cons.prems Cons.IH [of xs'] show ?thesis by simp
    next
      case False
      with Cons Cons.prems Cons.IH [of xs] show ?thesis by simp
    qed
  qed
qed

lemma subseq_map_Some: "subseq (map Some xs) (map Some ys) \<Longrightarrow> subseq xs ys"
  using subseq_map [of "map Some xs" "map Some ys" the] by (simp add: comp_def)

subsection \<open>The terminator\<close>

text \<open>
  The vector of a call: the invocation name, the tokens \<open>pre\<close>, one token \<open>d\<close>, the
  tokens \<open>post\<close>, and whatever follows the arguments in the array.
\<close>

lemma vector_nth_pre:
  assumes "1 \<le> k" and "k \<le> length pre"
  shows "(Some prog # map Some (pre @ d # post) @ rest) ! k = Some (pre ! (k - 1))
    \<and> pre ! (k - 1) \<in> set pre"
  using assms by (cases k; simp add: nth_append)

lemma vector_nth_mid:
  "(Some prog # map Some (pre @ d # post) @ rest) ! Suc (length pre) = Some d"
  by (simp add: nth_append)

lemma vector_front:
  "take (Suc (length pre)) (drop 1 (Some prog # map Some (pre @ d # post) @ rest)) =
     map Some pre @ [Some d]"
  by simp

lemma vector_back:
  "take (length post) (drop (Suc (Suc (length pre))) (Some prog # map Some (pre @ d # post) @ rest)) =
     map Some post"
  by simp

lemma terminator_literal: "terminator_token ''--''" "\<not> plain_token ''--''"
  by (simp_all add: terminator_token_def plain_token_def char_at_def NUL_def)

lemma returns_at_terminator:
  assumes v: "valid self" and c0: "cpidx self = 0"
    and nd: "''--'' \<notin> set pre" and nn: "\<forall>t \<in> set pre. NUL \<notin> set t"
    and st: "stopAtNonOption self \<longrightarrow> (\<forall>t \<in> set pre. \<not> plain_token t)"
    and run: "Argparser_parse strtof self (int (length pre + length post + 2))
                (Some prog # map Some (pre @ ''--'' # post) @ rest) m = Inr (n, self', vec', m')"
  shows "\<exists>qs. subseq qs pre \<and> list_all plain_token qs \<and> n = int (length (qs @ post))
           \<and> take (nat n + 1) vec' = map Some (qs @ post) @ [None]"
proof -
  let ?vec = "Some prog # map Some (pre @ ''--'' # post) @ rest"
  let ?A = "length pre + length post + 2"
  let ?k0 = "Suc (length pre)"
  have nt: "\<forall>t \<in> set pre. \<not> terminator_token t"
    using nd nn by (auto simp: terminator_token_iff)
  have A1: "1 \<le> ?A" and Al: "?A \<le> length ?vec" by simp_all
  from parse_compacted [OF v c0 A1 Al run] obtain qs j where
    j: "1 \<le> j" "j \<le> ?A" and n: "n = int (length qs + (?A - j))"
    and front: "take (nat n + 1) vec' = map Some qs @ take (?A - j) (drop j ?vec) @ [None]"
    and sub: "subseq (map Some qs) (take (j - 1) (drop 1 ?vec))"
    and pl: "list_all plain_token qs"
    and cause: "j = ?A
               \<or> (1 < j \<and> (\<exists>t. ?vec ! (j - 1) = Some t \<and> terminator_token t))
               \<or> (stopAtNonOption self \<and> j < ?A \<and> (\<exists>t. ?vec ! j = Some t \<and> plain_token t))"
    and skip: "\<forall>k t. 1 \<le> k \<and> k < j \<and> ?vec ! k = Some t \<and> terminator_token t \<longrightarrow> k + 1 = j"
    by blast
  have jk: "j = Suc ?k0"
  proof (cases "?k0 < j")
    case True
    with skip vector_nth_mid [of prog pre "''--''" post rest] terminator_literal(1)
    show ?thesis by auto
  next
    case False
    then have le: "j \<le> ?k0" by simp
    then have "j \<noteq> ?A" by simp
    with cause consider
      (t) t where "1 < j" "?vec ! (j - 1) = Some t" "terminator_token t"
      | (p) t where "stopAtNonOption self" "?vec ! j = Some t" "plain_token t"
      by blast
    then show ?thesis
    proof cases
      case t
      from t(1) le have "1 \<le> j - 1" "j - 1 \<le> length pre" by simp_all
      from vector_nth_pre [OF this, of prog "''--''" post rest] t(2,3) nt
      show ?thesis by auto
    next
      case p
      show ?thesis
      proof (cases "j = ?k0")
        case True
        with p(2,3) vector_nth_mid [of prog pre "''--''" post rest] terminator_literal(2)
        show ?thesis by auto
      next
        case False
        with le j(1) have "1 \<le> j" "j \<le> length pre" by simp_all
        from vector_nth_pre [OF this, of prog "''--''" post rest] p st
        show ?thesis by auto
      qed
    qed
  qed
  have "subseq (map Some qs) (map Some pre @ [Some ''--''])"
    using sub vector_front [of pre prog "''--''" post rest] unfolding jk by simp
  moreover have "Some ''--'' \<notin> set (map Some qs)"
    using pl terminator_literal(2) by (auto simp: list_all_iff)
  ultimately have "subseq (map Some qs) (map Some pre)"
    by (rule subseq_snoc_notin)
  then have s: "subseq qs pre" by (rule subseq_map_Some)
  have d: "?A - j = length post" unfolding jk by simp
  have "take (nat n + 1) vec' = map Some qs @ map Some post @ [None]"
    using front vector_back [of post pre prog "''--''" rest] unfolding d unfolding jk by simp
  with s pl n d show ?thesis by auto
qed

lemma unknown_before_terminator:
  assumes v: "valid self" and c0: "cpidx self = 0"
    and cb: "callbacks_do_not_raise_unknown (options self)"
    and run: "Argparser_parse strtof self (int (length pre + length post + 2))
                (Some prog # map Some (pre @ ''--'' # post) @ rest) m = Inl (UnknownOption u, m')"
  shows "u \<in> set pre"
proof -
  let ?vec = "Some prog # map Some (pre @ ''--'' # post) @ rest"
  let ?A = "length pre + length post + 2"
  have A1: "1 \<le> ?A" and Al: "?A \<le> length ?vec" by simp_all
  from parse_unknown [OF v c0 A1 Al cb run] obtain k where
    k: "1 \<le> k" "k < ?A" "?vec ! k = Some u"
    and nt: "\<forall>k' t. 1 \<le> k' \<and> k' \<le> k \<and> ?vec ! k' = Some t \<longrightarrow> \<not> terminator_token t"
    by blast
  have "k \<le> length pre"
  proof (rule ccontr)
    assume "\<not> k \<le> length pre"
    then have "1 \<le> Suc (length pre) \<and> Suc (length pre) \<le> k
        \<and> ?vec ! Suc (length pre) = Some ''--''"
      using vector_nth_mid [of prog pre "''--''" post rest] by simp
    with nt have "\<not> terminator_token ''--''" by blast
    with terminator_literal(1) show False by simp
  qed
  from vector_nth_pre [OF k(1) this, of prog "''--''" post rest] k(3)
  show ?thesis by auto
qed

text \<open>
  C4. On a handle that has not parsed before, let the tokens \<open>pre\<close> in front of the first
  token \<open>--\<close> hold no plain token when stopping at a non-option is requested. If the call
  returns, the front of the vector is some of the plain tokens of \<open>pre\<close>, in their
  order, then every token behind \<open>--\<close>, whatever it starts with, then the null entry, and
  the count is their number: the token \<open>--\<close> is not among them. If the call ends with
  the exit of an unknown option, the option is a token of \<open>pre\<close>, never one behind
  \<open>--\<close>. On the table of Bud, \<open>-c -- -x file.txt\<close> sets the colour flag and leaves
  \<open>-x\<close>, \<open>file.txt\<close>.
\<close>

theorem terminator_stops_parsing:
  "(valid self \<and> cpidx self = 0 \<and> ''--'' \<notin> set pre \<and> (\<forall>t \<in> set pre. NUL \<notin> set t)
      \<and> (stopAtNonOption self \<longrightarrow> (\<forall>t \<in> set pre. \<not> plain_token t)) \<longrightarrow>
      (Argparser_parse strtof self (int (length pre + length post + 2))
           (Some prog # map Some (pre @ ''--'' # post) @ rest) m = Inr (n, self', vec', m') \<longrightarrow>
         (\<exists>qs. subseq qs pre \<and> list_all plain_token qs \<and> n = int (length (qs @ post))
            \<and> take (nat n + 1) vec' = map Some (qs @ post) @ [None]))
      \<and> (callbacks_do_not_raise_unknown (options self)
           \<and> Argparser_parse strtof self (int (length pre + length post + 2))
               (Some prog # map Some (pre @ ''--'' # post) @ rest) m = Inl (UnknownOption u, mu) \<longrightarrow>
         u \<in> set pre))
   \<and> residual (Argparser_parse strtof (Argparser_init bud_options) 5
         [Some prog, Some ''-c'', Some ''--'', Some ''-x'', Some ''file.txt'', None] m) =
       Inr ([Some ''-x'', Some ''file.txt'', None], m(colorOutput \<mapsto> BoolV True))"
proof (intro conjI impI)
  assume a: "valid self \<and> cpidx self = 0 \<and> ''--'' \<notin> set pre \<and> (\<forall>t \<in> set pre. NUL \<notin> set t)
      \<and> (stopAtNonOption self \<longrightarrow> (\<forall>t \<in> set pre. \<not> plain_token t))"
  assume run: "Argparser_parse strtof self (int (length pre + length post + 2))
           (Some prog # map Some (pre @ ''--'' # post) @ rest) m = Inr (n, self', vec', m')"
  from a have "valid self" "cpidx self = 0" "''--'' \<notin> set pre" "\<forall>t \<in> set pre. NUL \<notin> set t"
    "stopAtNonOption self \<longrightarrow> (\<forall>t \<in> set pre. \<not> plain_token t)"
    by simp_all
  from returns_at_terminator [OF this run]
  show "\<exists>qs. subseq qs pre \<and> list_all plain_token qs \<and> n = int (length (qs @ post))
            \<and> take (nat n + 1) vec' = map Some (qs @ post) @ [None]" .
next
  assume a: "valid self \<and> cpidx self = 0 \<and> ''--'' \<notin> set pre \<and> (\<forall>t \<in> set pre. NUL \<notin> set t)
      \<and> (stopAtNonOption self \<longrightarrow> (\<forall>t \<in> set pre. \<not> plain_token t))"
  assume b: "callbacks_do_not_raise_unknown (options self)
           \<and> Argparser_parse strtof self (int (length pre + length post + 2))
               (Some prog # map Some (pre @ ''--'' # post) @ rest) m = Inl (UnknownOption u, mu)"
  from a b have "valid self" "cpidx self = 0" "callbacks_do_not_raise_unknown (options self)"
    "Argparser_parse strtof self (int (length pre + length post + 2))
               (Some prog # map Some (pre @ ''--'' # post) @ rest) m = Inl (UnknownOption u, mu)"
    by simp_all
  then show "u \<in> set pre"
    by (rule unknown_before_terminator)
next
  show "residual (Argparser_parse strtof (Argparser_init bud_options) 5
         [Some prog, Some ''-c'', Some ''--'', Some ''-x'', Some ''file.txt'', None] m) =
       Inr ([Some ''-x'', Some ''file.txt'', None], m(colorOutput \<mapsto> BoolV True))"
    by (simp add: eval_parse bud_options_def)
qed

theorem terminator_stops_parsing_witness:
  "(\<exists>qs. subseq qs [''-c''] \<and> list_all plain_token qs
       \<and> (2 :: int) = int (length (qs @ [''-x'', ''file.txt'']))
       \<and> take (nat 2 + 1) [Some ''-x'', Some ''file.txt'', None, Some ''-x'', Some ''file.txt'', None] =
           map Some (qs @ [''-x'', ''file.txt'']) @ [None])
   \<and> ''-x'' \<in> set [''-x'']"
proof -
  let ?self = "Argparser_init bud_options :: unit Argparser"
  have h: "valid ?self \<and> cpidx ?self = 0 \<and> ''--'' \<notin> set [''-c'']
      \<and> (\<forall>t \<in> set [''-c'']. NUL \<notin> set t)
      \<and> (stopAtNonOption ?self \<longrightarrow> (\<forall>t \<in> set [''-c'']. \<not> plain_token t))"
    by (simp add: Argparser_init_def NUL_def)
  have run: "Argparser_parse strtof_unit ?self (int (length [''-c''] + length [''-x'', ''file.txt''] + 2))
      (Some ''bud'' # map Some ([''-c''] @ ''--'' # [''-x'', ''file.txt'']) @ [None]) no_cells =
      Inr (2, ?self\<lparr>argc := 2, argv := 3\<rparr>,
           [Some ''-x'', Some ''file.txt'', None, Some ''-x'', Some ''file.txt'', None],
           no_cells(colorOutput \<mapsto> BoolV True))"
    by (simp add: eval_parse bud_options_def)
  have h2: "valid ?self \<and> cpidx ?self = 0 \<and> ''--'' \<notin> set [''-x'']
      \<and> (\<forall>t \<in> set [''-x'']. NUL \<notin> set t)
      \<and> (stopAtNonOption ?self \<longrightarrow> (\<forall>t \<in> set [''-x'']. \<not> plain_token t))"
    by (simp add: Argparser_init_def NUL_def)
  have cb: "callbacks_do_not_raise_unknown (options ?self)"
    by (simp add: Argparser_init_def callbacks_do_not_raise_unknown_def bud_options_def
        ARGPARSER_OPT_HELP_def ARGPARSER_OPT_BOOL_CALLBACK_def ARGPARSER_OPT_BOOL_def
        ARGPARSER_OPT_END_def Argparser_exitForHelp_def)
  have run2: "Argparser_parse strtof_unit ?self (int (length [''-x''] + length [''-y''] + 2))
      (Some ''bud'' # map Some ([''-x''] @ ''--'' # [''-y'']) @ [None]) no_cells =
      Inl (UnknownOption ''-x'', no_cells)"
    by (simp add: eval_parse bud_options_def)
  note t1 = terminator_stops_parsing [where self = ?self and pre = "[''-c'']"
      and post = "[''-x'', ''file.txt'']" and prog = "''bud''" and rest = "[None]"
      and strtof = strtof_unit and m = no_cells,
      THEN conjunct1, rule_format, OF h, THEN conjunct1, rule_format, OF run]
  from cb run2 have cr: "callbacks_do_not_raise_unknown (options ?self)
      \<and> Argparser_parse strtof_unit ?self (int (length [''-x''] + length [''-y''] + 2))
          (Some ''bud'' # map Some ([''-x''] @ ''--'' # [''-y'']) @ [None]) no_cells =
          Inl (UnknownOption ''-x'', no_cells)"
    by simp
  note t2 = terminator_stops_parsing [where self = ?self and pre = "[''-x'']"
      and post = "[''-y'']" and prog = "''bud''" and rest = "[None]"
      and strtof = strtof_unit and m = no_cells,
      THEN conjunct1, rule_format, OF h2, THEN conjunct2, rule_format, OF cr]
  from t1 t2 show ?thesis by simp
qed

text \<open>
  With stopping at a non-option requested, a plain token in front of \<open>--\<close> ends the
  loop first: the token \<open>--\<close> stays in the vector.
\<close>

theorem terminator_after_stop_counterexample:
  "residual (Argparser_parse strtof_unit ((Argparser_init bud_options)\<lparr>stopAtNonOption := True\<rparr>) 4
       [Some ''bud'', Some ''file'', Some ''--'', Some ''-x'', None] no_cells) =
     Inr ([Some ''file'', Some ''--'', Some ''-x'', None], no_cells)"
  by (simp add: eval_parse bud_options_def)

subsection \<open>Stopping at the first plain token\<close>

lemma vector_back_mid:
  "take (Suc (length post)) (drop (Suc (length pre)) (Some prog # map Some (pre @ d # post) @ rest)) =
     map Some (d # post)"
  by simp

lemma not_plain_dash: "\<not> plain_token s \<Longrightarrow> char_at s 0 = CHR ''-''"
  by (simp add: plain_token_def)

lemma no_value_before:
  assumes np: "\<forall>s \<in> set pre. \<not> plain_token s \<and> \<not> terminator_token s"
    and lp: "pre \<noteq> [] \<longrightarrow> length (last pre) \<noteq> 2"
    and one: "1 < Suc (length pre)"
    and prev: "(Some prog # map Some (pre @ d # post) @ rest) ! (Suc (length pre) - 1) = Some w"
    and w: "length w = 2 \<or> char_at w 0 \<noteq> CHR ''-''"
  shows False
proof -
  from one have ne: "pre \<noteq> []" by auto
  then have "1 \<le> length pre" "length pre \<le> length pre"
    by (cases pre; simp)+
  from vector_nth_pre [OF this, of prog d post rest] prev
  have "w = pre ! (length pre - 1)" by simp
  with ne have wl: "w = last pre" by (simp add: last_conv_nth)
  with ne np have "\<not> plain_token w" by auto
  from not_plain_dash [OF this] w wl lp ne show False by simp
qed

lemma returns_at_plain:
  assumes v: "valid self" and c0: "cpidx self = 0" and st: "stopAtNonOption self"
    and np: "\<forall>s \<in> set pre. \<not> plain_token s \<and> \<not> terminator_token s"
    and lp: "pre \<noteq> [] \<longrightarrow> length (last pre) \<noteq> 2"
    and pt: "plain_token t"
    and run: "Argparser_parse strtof self (int (length pre + length post + 2))
                (Some prog # map Some (pre @ t # post) @ rest) m = Inr (n, self', vec', m')"
  shows "n = int (length (t # post)) \<and> take (nat n + 1) vec' = map Some (t # post) @ [None]"
proof -
  let ?vec = "Some prog # map Some (pre @ t # post) @ rest"
  let ?A = "length pre + length post + 2"
  let ?k0 = "Suc (length pre)"
  have A1: "1 \<le> ?A" and Al: "?A \<le> length ?vec" by simp_all
  from parse_compacted [OF v c0 A1 Al run] obtain qs j where
    j: "1 \<le> j" "j \<le> ?A" and n: "n = int (length qs + (?A - j))"
    and front: "take (nat n + 1) vec' = map Some qs @ take (?A - j) (drop j ?vec) @ [None]"
    and q0: "stopAtNonOption self \<longrightarrow> qs = []"
    and cause: "j = ?A
               \<or> (1 < j \<and> (\<exists>t'. ?vec ! (j - 1) = Some t' \<and> terminator_token t'))
               \<or> (stopAtNonOption self \<and> j < ?A \<and> (\<exists>t'. ?vec ! j = Some t' \<and> plain_token t'))"
    and skip: "\<forall>k t'. stopAtNonOption self \<and> 1 \<le> k \<and> k < j \<and> ?vec ! k = Some t' \<and> plain_token t'
                \<longrightarrow> 1 < k
                   \<and> (\<exists>u. ?vec ! (k - 1) = Some u \<and> (length u = 2 \<or> char_at u 0 \<noteq> CHR ''-''))"
    by blast
  have mid: "?vec ! ?k0 = Some t"
    by (rule vector_nth_mid)
  have jk: "j = ?k0"
  proof (rule ccontr)
    assume ne: "j \<noteq> ?k0"
    show False
    proof (cases "?k0 < j")
      case True
      then have "stopAtNonOption self \<and> 1 \<le> ?k0 \<and> ?k0 < j \<and> ?vec ! ?k0 = Some t \<and> plain_token t"
        using st mid pt by simp
      with skip have "1 < ?k0
          \<and> (\<exists>u. ?vec ! (?k0 - 1) = Some u \<and> (length u = 2 \<or> char_at u 0 \<noteq> CHR ''-''))"
        by blast
      then obtain w where "1 < ?k0" "?vec ! (?k0 - 1) = Some w"
        "length w = 2 \<or> char_at w 0 \<noteq> CHR ''-''"
        by blast
      from no_value_before [OF np lp this] show False .
    next
      case False
      with ne have le: "j \<le> length pre" by simp
      then have "j \<noteq> ?A" by simp
      with cause consider
        (t) t' where "1 < j" "?vec ! (j - 1) = Some t'" "terminator_token t'"
        | (p) t' where "?vec ! j = Some t'" "plain_token t'"
        by blast
      then show False
      proof cases
        case t
        from t(1) le have "1 \<le> j - 1" "j - 1 \<le> length pre" by simp_all
        from vector_nth_pre [OF this, of prog t post rest] t(2,3) np
        show False by auto
      next
        case p
        from vector_nth_pre [OF j(1) le, of prog t post rest] p np
        show False by auto
      qed
    qed
  qed
  from q0 st have q: "qs = []" by simp
  have d: "?A - j = Suc (length post)" unfolding jk by simp
  have "take (nat n + 1) vec' = map Some (t # post) @ [None]"
    using front vector_back_mid [of post pre prog t rest] unfolding d q unfolding jk by simp
  with n d q show ?thesis by simp
qed

lemma unknown_before_plain:
  assumes v: "valid self" and c0: "cpidx self = 0" and st: "stopAtNonOption self"
    and np: "\<forall>s \<in> set pre. \<not> plain_token s \<and> \<not> terminator_token s"
    and lp: "pre \<noteq> [] \<longrightarrow> length (last pre) \<noteq> 2"
    and pt: "plain_token t"
    and cb: "callbacks_do_not_raise_unknown (options self)"
    and run: "Argparser_parse strtof self (int (length pre + length post + 2))
                (Some prog # map Some (pre @ t # post) @ rest) m = Inl (UnknownOption u, m')"
  shows "u \<in> set pre"
proof -
  let ?vec = "Some prog # map Some (pre @ t # post) @ rest"
  let ?A = "length pre + length post + 2"
  let ?k0 = "Suc (length pre)"
  have A1: "1 \<le> ?A" and Al: "?A \<le> length ?vec" by simp_all
  from parse_unknown [OF v c0 A1 Al cb run] obtain k where
    k: "1 \<le> k" "k < ?A" "?vec ! k = Some u"
    and skip: "\<forall>k' t'. stopAtNonOption self \<and> 1 \<le> k' \<and> k' \<le> k \<and> ?vec ! k' = Some t'
             \<and> plain_token t'
           \<longrightarrow> 1 < k'
               \<and> (\<exists>w. ?vec ! (k' - 1) = Some w \<and> (length w = 2 \<or> char_at w 0 \<noteq> CHR ''-''))"
    by blast
  have mid: "?vec ! ?k0 = Some t"
    by (rule vector_nth_mid)
  have "k \<le> length pre"
  proof (rule ccontr)
    assume "\<not> k \<le> length pre"
    then have "stopAtNonOption self \<and> 1 \<le> ?k0 \<and> ?k0 \<le> k \<and> ?vec ! ?k0 = Some t \<and> plain_token t"
      using st mid pt by simp
    with skip have "1 < ?k0
        \<and> (\<exists>w. ?vec ! (?k0 - 1) = Some w \<and> (length w = 2 \<or> char_at w 0 \<noteq> CHR ''-''))"
      by blast
    then obtain w where "1 < ?k0" "?vec ! (?k0 - 1) = Some w"
      "length w = 2 \<or> char_at w 0 \<noteq> CHR ''-''"
      by blast
    from no_value_before [OF np lp this] show False .
  qed
  from vector_nth_pre [OF k(1) this, of prog t post rest] k(3)
  show ?thesis by auto
qed

text \<open>
  C5. On a handle that has not parsed before and with stopping at a non-option requested,
  let no token of \<open>pre\<close> be plain or the terminator, and let the last of them not be a
  two-character token (a single short option takes a plain token behind it as its value).
  If the call returns, the front of the vector is the plain token \<open>t\<close> behind
  \<open>pre\<close>, then every token behind \<open>t\<close>, then the null entry, and the count is their
  number. If the call ends with the exit of an unknown option, the option is a token of
  \<open>pre\<close>: no token behind \<open>t\<close> is parsed. On the table of Bud,
  \<open>--inverse report.csv --color\<close> sets the inverse flag and leaves \<open>report.csv\<close>,
  \<open>--color\<close>.
\<close>

theorem stop_at_plain_token:
  "(valid self \<and> cpidx self = 0 \<and> stopAtNonOption self
      \<and> (\<forall>s \<in> set pre. \<not> plain_token s \<and> \<not> terminator_token s)
      \<and> (pre \<noteq> [] \<longrightarrow> length (last pre) \<noteq> 2) \<and> plain_token t \<longrightarrow>
      (Argparser_parse strtof self (int (length pre + length post + 2))
           (Some prog # map Some (pre @ t # post) @ rest) m = Inr (n, self', vec', m') \<longrightarrow>
         n = int (length (t # post)) \<and> take (nat n + 1) vec' = map Some (t # post) @ [None])
      \<and> (callbacks_do_not_raise_unknown (options self)
           \<and> Argparser_parse strtof self (int (length pre + length post + 2))
               (Some prog # map Some (pre @ t # post) @ rest) m = Inl (UnknownOption u, mu) \<longrightarrow>
         u \<in> set pre))
   \<and> residual (Argparser_parse strtof ((Argparser_init bud_options)\<lparr>stopAtNonOption := True\<rparr>) 4
         [Some prog, Some ''--inverse'', Some ''report.csv'', Some ''--color'', None] m) =
       Inr ([Some ''report.csv'', Some ''--color'', None], m(inverse_flag \<mapsto> BoolV True))"
proof (intro conjI impI)
  assume a: "valid self \<and> cpidx self = 0 \<and> stopAtNonOption self
      \<and> (\<forall>s \<in> set pre. \<not> plain_token s \<and> \<not> terminator_token s)
      \<and> (pre \<noteq> [] \<longrightarrow> length (last pre) \<noteq> 2) \<and> plain_token t"
  assume run: "Argparser_parse strtof self (int (length pre + length post + 2))
           (Some prog # map Some (pre @ t # post) @ rest) m = Inr (n, self', vec', m')"
  from a have h: "valid self" "cpidx self = 0" "stopAtNonOption self"
    "\<forall>s \<in> set pre. \<not> plain_token s \<and> \<not> terminator_token s"
    "pre \<noteq> [] \<longrightarrow> length (last pre) \<noteq> 2" "plain_token t"
    by simp_all
  note r = returns_at_plain [OF h run]
  from r show "n = int (length (t # post))" by (rule conjunct1)
  from r show "take (nat n + 1) vec' = map Some (t # post) @ [None]" by (rule conjunct2)
next
  assume a: "valid self \<and> cpidx self = 0 \<and> stopAtNonOption self
      \<and> (\<forall>s \<in> set pre. \<not> plain_token s \<and> \<not> terminator_token s)
      \<and> (pre \<noteq> [] \<longrightarrow> length (last pre) \<noteq> 2) \<and> plain_token t"
  assume b: "callbacks_do_not_raise_unknown (options self)
           \<and> Argparser_parse strtof self (int (length pre + length post + 2))
               (Some prog # map Some (pre @ t # post) @ rest) m = Inl (UnknownOption u, mu)"
  from a b have "valid self" "cpidx self = 0" "stopAtNonOption self"
    "\<forall>s \<in> set pre. \<not> plain_token s \<and> \<not> terminator_token s"
    "pre \<noteq> [] \<longrightarrow> length (last pre) \<noteq> 2" "plain_token t"
    "callbacks_do_not_raise_unknown (options self)"
    "Argparser_parse strtof self (int (length pre + length post + 2))
               (Some prog # map Some (pre @ t # post) @ rest) m = Inl (UnknownOption u, mu)"
    by simp_all
  then show "u \<in> set pre"
    by (rule unknown_before_plain)
next
  show "residual (Argparser_parse strtof ((Argparser_init bud_options)\<lparr>stopAtNonOption := True\<rparr>) 4
         [Some prog, Some ''--inverse'', Some ''report.csv'', Some ''--color'', None] m) =
       Inr ([Some ''report.csv'', Some ''--color'', None], m(inverse_flag \<mapsto> BoolV True))"
    by (simp add: eval_parse bud_options_def)
qed

theorem stop_at_plain_token_witness:
  "(2 :: int) = int (length (''report.csv'' # [''--color'']))
   \<and> take (nat 2 + 1) [Some ''report.csv'', Some ''--color'', None, Some ''--color'', None] =
       map Some (''report.csv'' # [''--color'']) @ [None]
   \<and> ''--bogus'' \<in> set [''--bogus'']"
proof -
  let ?self = "(Argparser_init bud_options)\<lparr>stopAtNonOption := True\<rparr> :: unit Argparser"
  have h: "valid ?self \<and> cpidx ?self = 0 \<and> stopAtNonOption ?self
      \<and> (\<forall>s \<in> set [''--inverse'']. \<not> plain_token s \<and> \<not> terminator_token s)
      \<and> ([''--inverse''] \<noteq> [] \<longrightarrow> length (last [''--inverse'']) \<noteq> 2)
      \<and> plain_token ''report.csv''"
    by (simp add: Argparser_init_def plain_token_def terminator_token_def char_at_def NUL_def)
  have run: "Argparser_parse strtof_unit ?self
      (int (length [''--inverse''] + length [''--color''] + 2))
      (Some ''bud'' # map Some ([''--inverse''] @ ''report.csv'' # [''--color'']) @ [None]) no_cells =
      Inr (2, ?self\<lparr>argc := 2, argv := 2\<rparr>,
           [Some ''report.csv'', Some ''--color'', None, Some ''--color'', None],
           no_cells(inverse_flag \<mapsto> BoolV True))"
    by (simp add: eval_parse bud_options_def)
  have h2: "valid ?self \<and> cpidx ?self = 0 \<and> stopAtNonOption ?self
      \<and> (\<forall>s \<in> set [''--bogus'']. \<not> plain_token s \<and> \<not> terminator_token s)
      \<and> ([''--bogus''] \<noteq> [] \<longrightarrow> length (last [''--bogus'']) \<noteq> 2)
      \<and> plain_token ''report.csv''"
    by (simp add: Argparser_init_def plain_token_def terminator_token_def char_at_def NUL_def)
  have cb: "callbacks_do_not_raise_unknown (options ?self)"
    by (simp add: Argparser_init_def callbacks_do_not_raise_unknown_def bud_options_def
        ARGPARSER_OPT_HELP_def ARGPARSER_OPT_BOOL_CALLBACK_def ARGPARSER_OPT_BOOL_def
        ARGPARSER_OPT_END_def Argparser_exitForHelp_def)
  have run2: "Argparser_parse strtof_unit ?self
      (int (length [''--bogus''] + length [''--color''] + 2))
      (Some ''bud'' # map Some ([''--bogus''] @ ''report.csv'' # [''--color'']) @ [None]) no_cells =
      Inl (UnknownOption ''--bogus'', no_cells)"
    by (simp add: eval_parse bud_options_def)
  note t1 = stop_at_plain_token [where self = ?self and pre = "[''--inverse'']"
      and t = "''report.csv''" and post = "[''--color'']" and prog = "''bud''" and rest = "[None]"
      and strtof = strtof_unit and m = no_cells,
      THEN conjunct1, rule_format, OF h, THEN conjunct1, rule_format, OF run]
  from cb run2 have cr: "callbacks_do_not_raise_unknown (options ?self)
      \<and> Argparser_parse strtof_unit ?self
          (int (length [''--bogus''] + length [''--color''] + 2))
          (Some ''bud'' # map Some ([''--bogus''] @ ''report.csv'' # [''--color'']) @ [None]) no_cells =
          Inl (UnknownOption ''--bogus'', no_cells)"
    by simp
  note t2 = stop_at_plain_token [where self = ?self and pre = "[''--bogus'']"
      and t = "''report.csv''" and post = "[''--color'']" and prog = "''bud''" and rest = "[None]"
      and strtof = strtof_unit and m = no_cells,
      THEN conjunct1, rule_format, OF h2, THEN conjunct2, rule_format, OF cr]
  from t1 t2 show ?thesis by simp
qed

text \<open>
  The first plain token behind a single short option is the value of the option: the loop
  does not stop there, and the token is not in the vector that is left.
\<close>

theorem value_before_stop_counterexample:
  "residual (Argparser_parse strtof_unit ((Argparser_init bud_options)\<lparr>stopAtNonOption := True\<rparr>) 4
       [Some ''bud'', Some ''-c'', Some ''0'', Some ''report.csv'', None] no_cells) =
     Inr ([Some ''report.csv'', None], no_cells(colorOutput \<mapsto> BoolV False))"
  by (simp add: eval_parse bud_options_def)

subsection \<open>The count and the front of the vector\<close>

lemma parse_loop_plain_returns:
  "loop_inv A self vec \<Longrightarrow>
   \<forall>k. argv self \<le> k \<and> k < A \<longrightarrow> (\<exists>t. vec ! k = Some t \<and> plain_token t) \<Longrightarrow>
   \<exists>self' vec'. parse_loop strtof self vec m = Inr (self', vec', m)"
proof (induction strtof self vec m rule: parse_loop_induct)
  case (exhausted strtof self vec m)
  then show ?case by (simp add: parse_loop_done)
next
  case (fault strtof self vec m)
  from fault(1,3) have "argv self < A" "A \<le> length vec"
    by (simp_all add: loop_inv_def)
  with fault(2,4) show ?case
    by (auto simp: arg_at_def)
next
  case (stop strtof self vec m arg)
  then show ?case by (simp add: parse_loop_stop)
next
  case (copy_fault strtof self vec m arg)
  from copy_fault(6) have "0 \<le> cpidx self \<and> out self + nat (cpidx self) < length vec"
    by (simp add: loop_inv_def)
  with copy_fault(5) show ?case by simp
next
  case (copy strtof self vec m arg)
  let ?self2 = "self\<lparr>cpidx := cpidx self + 1, argc := argc self - 1, argv := argv self + 1\<rparr>"
  let ?vec2 = "vec[out self + nat (cpidx self) := Some arg]"
  from copy(1,8) have iA: "argv self < A"
    by (simp add: loop_inv_def)
  from copy(8) iA have inv2: "loop_inv A ?self2 ?vec2"
    by (simp add: loop_inv_def) linarith
  from copy(8) have w: "out self + nat (cpidx self) < argv self"
    by (simp add: loop_inv_def)
  have "\<forall>k. argv ?self2 \<le> k \<and> k < A \<longrightarrow> (\<exists>t. ?vec2 ! k = Some t \<and> plain_token t)"
  proof (intro allI impI)
    fix k
    assume a: "argv ?self2 \<le> k \<and> k < A"
    with w have "?vec2 ! k = vec ! k" by simp
    with a copy(9) show "\<exists>t. ?vec2 ! k = Some t \<and> plain_token t" by simp
  qed
  from copy.IH [OF inv2 this] copy(1-6) show ?case
    by (simp add: parse_loop_copy)
next
  case (short_option strtof self vec m arg)
  from short_option(1,6) have "argv self < A"
    by (simp add: loop_inv_def)
  with short_option(7) obtain t where "vec ! argv self = Some t" "plain_token t" by blast
  with arg_at_Some [OF short_option(2)] short_option(3) show ?case by simp
next
  case (long_option strtof self vec m arg)
  from long_option(1,7) have "argv self < A"
    by (simp add: loop_inv_def)
  with long_option(8) obtain t where "vec ! argv self = Some t" "plain_token t" by blast
  with arg_at_Some [OF long_option(2)] long_option(3) show ?case by simp
next
  case (terminator strtof self vec m arg)
  from terminator(1,6) have "argv self < A"
    by (simp add: loop_inv_def)
  with terminator(7) obtain t where "vec ! argv self = Some t" "plain_token t" by blast
  with arg_at_Some [OF terminator(2)] terminator(3) show ?case by simp
qed

lemma parse_returns_of_loop:
  assumes v: "valid self" and c0: "cpidx self = 0" and A1: "1 \<le> A" and Al: "A \<le> length vec"
    and loop: "parse_loop strtof (self\<lparr>argc := int A - 1, argv := 1, out := 0\<rparr>) vec m =
                 Inr (self2, vec2, m2)"
  shows "\<exists>n vec3. Argparser_parse strtof self (int A) vec m = Inr (n, self2, vec3, m2)"
proof -
  let ?self1 = "self\<lparr>argc := int A - 1, argv := 1, out := 0\<rparr>"
  have inv1: "loop_inv A ?self1 vec"
    using c0 A1 Al by (simp add: loop_inv_def)
  from parse_loop_compacted [OF inv1 loop] obtain qs where c: "compacted A ?self1 vec self2 vec2 qs" ..
  note r = compactedD [OF c]
  let ?j = "argv self2" and ?c = "nat (cpidx self2)"
  from r(1) have o: "out self2 = 0" and cp: "0 \<le> cpidx self2" and cj: "?c < ?j" and jA: "?j \<le> A"
    and ac: "argc self2 = int A - int ?j" and Al2: "A \<le> length vec2"
    by (simp_all add: loop_inv_def)
  let ?n = "?c + (A - ?j)"
  let ?vec3 = "take ?c vec2 @ take (A - ?j) (drop ?j vec2) @ drop ?n vec2"
  have mm: "memmove vec2 (out self2 + ?c) ?j (argc self2) = Some ?vec3"
    unfolding o ac using memmove_tail [OF cj jA Al2] by simp
  have nn: "nat (cpidx self2 + argc self2) = ?n"
    using cp ac jA by (simp add: nat_add_distrib nat_diff_distrib)
  have nl: "out self2 + nat (cpidx self2 + argc self2) < length ?vec3"
    unfolding o nn using cj jA Al2 by simp
  have "Argparser_parse strtof self (int A) vec m =
      Inr (cpidx self2 + argc self2, self2,
           ?vec3[out self2 + nat (cpidx self2 + argc self2) := None], m2)"
    using v loop cp mm nl by (rule parse_finish)
  then show ?thesis by blast
qed

lemma args_nth:
  assumes "1 \<le> k" and "k \<le> length args"
  shows "(Some prog # map Some args @ rest) ! k = Some (args ! (k - 1)) \<and> args ! (k - 1) \<in> set args"
  using assms by (cases k; simp add: nth_append)

lemma parse_plain_args:
  assumes v: "valid self" and c0: "cpidx self = 0" and pl: "\<forall>t \<in> set args. plain_token t"
  shows "\<exists>self' vec'.
           Argparser_parse strtof self (int (length args + 1)) (Some prog # map Some args @ rest) m =
             Inr (int (length args), self', vec', m)
           \<and> take (length args + 1) vec' = map Some args @ [None]"
proof -
  let ?vec = "Some prog # map Some args @ rest"
  let ?A = "length args + 1"
  let ?self1 = "self\<lparr>argc := int ?A - 1, argv := 1, out := 0\<rparr>"
  have A1: "1 \<le> ?A" and Al: "?A \<le> length ?vec" by simp_all
  have inv1: "loop_inv ?A ?self1 ?vec"
    using c0 by (simp add: loop_inv_def)
  have plain: "\<forall>k. 1 \<le> k \<and> k < ?A \<longrightarrow> (\<exists>t. ?vec ! k = Some t \<and> plain_token t)"
  proof (intro allI impI)
    fix k
    assume "1 \<le> k \<and> k < ?A"
    then have "1 \<le> k" "k \<le> length args" by simp_all
    from args_nth [OF this, of prog rest] pl
    show "\<exists>t. ?vec ! k = Some t \<and> plain_token t" by auto
  qed
  then have "\<forall>k. argv ?self1 \<le> k \<and> k < ?A \<longrightarrow> (\<exists>t. ?vec ! k = Some t \<and> plain_token t)"
    by simp
  from parse_loop_plain_returns [OF inv1 this, of strtof m] obtain self2 vec2 where
    loop: "parse_loop strtof ?self1 ?vec m = Inr (self2, vec2, m)"
    by blast
  from parse_returns_of_loop [OF v c0 A1 Al loop] obtain n vec3 where
    run: "Argparser_parse strtof self (int ?A) ?vec m = Inr (n, self2, vec3, m)"
    by blast
  from parse_compacted [OF v c0 A1 Al run] obtain qs j where
    j: "1 \<le> j" "j \<le> ?A" and n: "n = int (length qs + (?A - j))"
    and front: "take (nat n + 1) vec3 = map Some qs @ take (?A - j) (drop j ?vec) @ [None]"
    and q0: "stopAtNonOption self \<longrightarrow> qs = []"
    and cause: "j = ?A
               \<or> (1 < j \<and> (\<exists>t. ?vec ! (j - 1) = Some t \<and> terminator_token t))
               \<or> (stopAtNonOption self \<and> j < ?A \<and> (\<exists>t. ?vec ! j = Some t \<and> plain_token t))"
    and skip: "\<forall>k t. stopAtNonOption self \<and> 1 \<le> k \<and> k < j \<and> ?vec ! k = Some t \<and> plain_token t
                \<longrightarrow> 1 < k
                   \<and> (\<exists>u. ?vec ! (k - 1) = Some u \<and> (length u = 2 \<or> char_at u 0 \<noteq> CHR ''-''))"
    and al: "\<not> stopAtNonOption self
               \<and> (\<forall>k. 1 \<le> k \<and> k < j \<longrightarrow> (\<exists>t. ?vec ! k = Some t \<and> plain_token t))
             \<longrightarrow> map Some qs = take (j - 1) (drop 1 ?vec)"
    by blast
  have res: "n = int (length args) \<and> take (nat n + 1) vec3 = map Some args @ [None]"
  proof (cases "stopAtNonOption self")
    case True
    have "j = 1"
    proof (rule ccontr)
      assume "j \<noteq> 1"
      with j have lt: "1 < j" by simp
      with j(2) plain obtain t where "?vec ! 1 = Some t" "plain_token t"
        by (metis One_nat_def le_refl less_le_trans)
      with skip True lt have "(1::nat) < 1" by blast
      then show False by simp
    qed
    with q0 True n front show ?thesis by simp
  next
    case False
    have pj: "\<forall>k. 1 \<le> k \<and> k < j \<longrightarrow> (\<exists>t. ?vec ! k = Some t \<and> plain_token t)"
      using plain j(2) by simp
    with al False have qs: "map Some qs = take (j - 1) (drop 1 ?vec)" by simp
    have jA: "j = ?A"
    proof (rule ccontr)
      assume "j \<noteq> ?A"
      with cause False obtain t where t: "1 < j" "?vec ! (j - 1) = Some t" "terminator_token t"
        by blast
      from t(1) have "1 \<le> j - 1 \<and> j - 1 < j" by simp
      with pj obtain t' where "?vec ! (j - 1) = Some t'" "plain_token t'" by blast
      with t(2,3) show False by (simp add: terminator_token_def)
    qed
    from qs have q: "map Some qs = map Some args" unfolding jA by simp
    then have "length qs = length args"
      by (metis length_map)
    with n front q show ?thesis unfolding jA by simp
  qed
  with run show ?thesis by auto
qed

text \<open>
  C3. On a handle that has not parsed before: when every argument is a plain token, the call
  returns their number and leaves them, in their order and without the invocation name, at
  the front of the vector, with the null entry behind them; and whenever the call returns
  \<open>n\<close>, the first \<open>n\<close> entries are plain tokens that the loop passed, in their order,
  then the tokens from where the loop ended, and entry \<open>n\<close> is null. The write index
  \<open>cpidx\<close> is the one cursor field that \<open>Argparser_parse\<close> does not set: on the
  handle that a first call on \<open>a\<close> has left, a second call on the one argument \<open>b\<close>
  returns 2 and leaves the invocation name in front of \<open>b\<close>.
\<close>

theorem compaction_of_positionals:
  "(valid self \<and> cpidx self = 0 \<and> (\<forall>t \<in> set args. plain_token t) \<longrightarrow>
      (\<exists>self' vec'.
         Argparser_parse strtof self (int (length args + 1)) (Some prog # map Some args @ rest) m =
           Inr (int (length args), self', vec', m)
         \<and> take (length args + 1) vec' = map Some args @ [None]))
   \<and> (valid self \<and> cpidx self = 0 \<and> 1 \<le> A \<and> A \<le> length vec
        \<and> Argparser_parse strtof self (int A) vec m = Inr (n, self1, vec1, m1) \<longrightarrow>
      (\<exists>qs j. 1 \<le> j \<and> j \<le> A \<and> n = int (length qs + (A - j))
         \<and> take (nat n + 1) vec1 = map Some qs @ take (A - j) (drop j vec) @ [None]
         \<and> subseq (map Some qs) (take (j - 1) (drop 1 vec))
         \<and> list_all plain_token qs))
   \<and> Argparser_parse strtof (Argparser_init bud_options) 2 [Some prog, Some ''a'', None] m =
       Inr (1, (Argparser_init bud_options)\<lparr>argc := 0, argv := 2, cpidx := 1\<rparr>,
            [Some ''a'', None, None], m)
   \<and> Argparser_parse strtof ((Argparser_init bud_options)\<lparr>argc := 0, argv := 2, cpidx := 1\<rparr>) 2
         [Some prog, Some ''b'', None] m =
       Inr (2, (Argparser_init bud_options)\<lparr>argc := 0, argv := 2, cpidx := 2\<rparr>,
            [Some prog, Some ''b'', None], m)"
proof (intro conjI impI)
  assume "valid self \<and> cpidx self = 0 \<and> (\<forall>t \<in> set args. plain_token t)"
  then have "valid self" "cpidx self = 0" "\<forall>t \<in> set args. plain_token t"
    by simp_all
  then show "\<exists>self' vec'.
         Argparser_parse strtof self (int (length args + 1)) (Some prog # map Some args @ rest) m =
           Inr (int (length args), self', vec', m)
         \<and> take (length args + 1) vec' = map Some args @ [None]"
    by (rule parse_plain_args)
next
  assume "valid self \<and> cpidx self = 0 \<and> 1 \<le> A \<and> A \<le> length vec
        \<and> Argparser_parse strtof self (int A) vec m = Inr (n, self1, vec1, m1)"
  then have h: "valid self" "cpidx self = 0" "1 \<le> A" "A \<le> length vec"
    "Argparser_parse strtof self (int A) vec m = Inr (n, self1, vec1, m1)"
    by simp_all
  from parse_compacted [OF h]
  show "\<exists>qs j. 1 \<le> j \<and> j \<le> A \<and> n = int (length qs + (A - j))
         \<and> take (nat n + 1) vec1 = map Some qs @ take (A - j) (drop j vec) @ [None]
         \<and> subseq (map Some qs) (take (j - 1) (drop 1 vec))
         \<and> list_all plain_token qs"
    by blast
next
  show "Argparser_parse strtof (Argparser_init bud_options) 2 [Some prog, Some ''a'', None] m =
       Inr (1, (Argparser_init bud_options)\<lparr>argc := 0, argv := 2, cpidx := 1\<rparr>,
            [Some ''a'', None, None], m)"
    by (simp add: eval_parse bud_options_def)
next
  show "Argparser_parse strtof ((Argparser_init bud_options)\<lparr>argc := 0, argv := 2, cpidx := 1\<rparr>) 2
         [Some prog, Some ''b'', None] m =
       Inr (2, (Argparser_init bud_options)\<lparr>argc := 0, argv := 2, cpidx := 2\<rparr>,
            [Some prog, Some ''b'', None], m)"
    by (simp add: eval_parse bud_options_def)
qed

theorem compaction_of_positionals_witness:
  "(\<exists>self' vec'.
      Argparser_parse strtof_unit (Argparser_init bud_options)
          (int (length [''in.txt'', ''-'', ''out.txt''] + 1))
          (Some ''bud'' # map Some [''in.txt'', ''-'', ''out.txt''] @ [None]) no_cells =
        Inr (int (length [''in.txt'', ''-'', ''out.txt'']), self', vec', no_cells)
      \<and> take (length [''in.txt'', ''-'', ''out.txt''] + 1) vec' =
          map Some [''in.txt'', ''-'', ''out.txt''] @ [None])
   \<and> (\<exists>qs j. 1 \<le> j \<and> j \<le> (5 :: nat) \<and> (2 :: int) = int (length qs + (5 - j))
        \<and> take (nat 2 + 1) [Some ''-x'', Some ''file.txt'', None, Some ''-x'', Some ''file.txt'', None] =
            map Some qs
            @ take (5 - j)
                (drop j [Some ''bud'', Some ''-c'', Some ''--'', Some ''-x'', Some ''file.txt'', None])
            @ [None]
        \<and> subseq (map Some qs)
            (take (j - 1)
               (drop 1 [Some ''bud'', Some ''-c'', Some ''--'', Some ''-x'', Some ''file.txt'', None]))
        \<and> list_all plain_token qs)"
proof -
  let ?self = "Argparser_init bud_options :: unit Argparser"
  have h1: "valid ?self \<and> cpidx ?self = 0
      \<and> (\<forall>t \<in> set [''in.txt'', ''-'', ''out.txt'']. plain_token t)"
    by (simp add: Argparser_init_def plain_token_def char_at_def NUL_def)
  have h2: "valid ?self \<and> cpidx ?self = 0 \<and> 1 \<le> (5 :: nat)
      \<and> 5 \<le> length [Some ''bud'', Some ''-c'', Some ''--'', Some ''-x'', Some ''file.txt'', None]
      \<and> Argparser_parse strtof_unit ?self (int 5)
          [Some ''bud'', Some ''-c'', Some ''--'', Some ''-x'', Some ''file.txt'', None] no_cells =
          Inr (2, ?self\<lparr>argc := 2, argv := 3\<rparr>,
               [Some ''-x'', Some ''file.txt'', None, Some ''-x'', Some ''file.txt'', None],
               no_cells(colorOutput \<mapsto> BoolV True))"
    by (simp add: eval_parse bud_options_def)
  note t1 = compaction_of_positionals [where self = ?self and args = "[''in.txt'', ''-'', ''out.txt'']"
      and strtof = strtof_unit and prog = "''bud''" and rest = "[None]" and m = no_cells,
      THEN conjunct1, rule_format, OF h1]
  note t2 = compaction_of_positionals [where self = ?self and A = 5
      and vec = "[Some ''bud'', Some ''-c'', Some ''--'', Some ''-x'', Some ''file.txt'', None]"
      and strtof = strtof_unit and m = no_cells,
      THEN conjunct2, THEN conjunct1, rule_format, OF h2]
  from t1 t2 show ?thesis by blast
qed

end
